theory Spec2Isabelle
  imports Complex_Main "HOL-Library.Word"
begin

section \<open>Brush effect engine of Mosaic-Master (utils/effects.ts)\<close>

text \<open>
  The effects read a rectangle of the canvas with \<open>getImageData\<close>, rewrite the bytes of the
  returned \<open>ImageData\<close> in nested loops, and write the rectangle back with \<open>putImageData\<close>.

  Conventions of the embedding.
  \<^item> A JavaScript number is a mathematical \<open>real\<close>: arithmetic is exact, and NaN and the
    infinities are not values. Loop counters, bounds and array indices, which the code keeps
    integer-valued, are \<open>int\<close>.
  \<^item> A channel is a byte, \<open>8 word\<close>; a store into the \<open>Uint8ClampedArray\<close> goes through
    \<open>to_uint8_clamp\<close> (clamp to 0..255, round half to even).
  \<^item> An exception is the \<open>Inl\<close> of a result \<open>error + 'a\<close>.
  \<^item> An index outside the typed array is the result \<open>Inl OutOfRange\<close>. (In the browser a
    read there yields \<open>undefined\<close> and a write is dropped; the model makes such an access a
    result of its own, so that its absence is a property of the run.)
  \<^item> \<open>Math.random()\<close> is a sequence \<open>rnd :: nat \<Rightarrow> real\<close>: \<open>rnd n\<close> is the value of the
    \<open>n\<close>-th call made during the dab.
\<close>

subsection \<open>Data model\<close>

type_synonym byte = "8 word"

record BrushSettings =
  radius :: real
  intensity :: real

record ImageData =
  width :: nat
  height :: nat
  data :: "byte list"

datatype error = TypeError | IndexSizeError | SecurityError | OutOfRange

text \<open>Sequencing: the first error ends the computation.\<close>

definition bindE :: "error + 'a \<Rightarrow> ('a \<Rightarrow> error + 'b) \<Rightarrow> error + 'b" where
  "bindE m f = (case m of Inl e \<Rightarrow> Inl e | Inr v \<Rightarrow> f v)"

text \<open>A transfer of pixels between the backing store and the program: the rectangle read
  by a successful \<open>getImageData\<close>, or written by \<open>putImageData\<close> (origin, width, height).\<close>

datatype transfer = ReadRegion int int nat nat | WriteRegion int int nat nat

text \<open>The 2D context with its canvas: the bitmap is \<open>canvas_width * canvas_height\<close> pixels of
  four bytes R, G, B, A, row-major from the top-left corner. \<open>origin_clean\<close> is the flag of the
  HTML standard: when it is off (tainted canvas) the store refuses every read.
  \<open>transfers\<close> records the pixel transfers made so far.\<close>

record Context2D =
  canvas_width :: nat
  canvas_height :: nat
  pixels :: "byte list"
  origin_clean :: bool
  transfers :: "transfer list"

definition wf_canvas :: "Context2D \<Rightarrow> bool" where
  "wf_canvas ctx \<longleftrightarrow>
     length (pixels ctx) = canvas_width ctx * canvas_height ctx * 4 \<and>
     canvas_width ctx < 2 ^ 31 \<and> canvas_height ctx < 2 ^ 31"

text \<open>Byte \<open>k\<close> (0 = R, 1 = G, 2 = B, 3 = A) of the pixel at \<open>(x, y)\<close>; a pixel outside the
  bitmap reads as transparent black, as \<open>getImageData\<close> returns it.\<close>

definition canvas_byte :: "Context2D \<Rightarrow> int \<Rightarrow> int \<Rightarrow> nat \<Rightarrow> byte" where
  "canvas_byte ctx x y k =
     (if 0 \<le> x \<and> x < int (canvas_width ctx) \<and> 0 \<le> y \<and> y < int (canvas_height ctx)
      then pixels ctx ! (nat ((y * int (canvas_width ctx) + x) * 4) + k)
      else 0)"

subsection \<open>The canvas API used by the effects\<close>

text \<open>Conversion of an argument to Web IDL \<open>[EnforceRange] long\<close>: the integer part
  (truncation towards zero), a \<open>TypeError\<close> outside the 32-bit range.\<close>

definition to_long :: "real \<Rightarrow> error + int" where
  "to_long v =
     (let i = (if 0 \<le> v then \<lfloor>v\<rfloor> else \<lceil>v\<rceil>)
      in if - (2 ^ 31) \<le> i \<and> i < 2 ^ 31 then Inr i else Inl TypeError)"

text \<open>\<open>ctx.getImageData(sx, sy, sw, sh)\<close> of the HTML standard: \<open>IndexSizeError\<close> for a zero
  width or height, \<open>SecurityError\<close> on a tainted canvas, otherwise a copy of the rectangle
  (a negative extent spans to the left of or above the origin).\<close>

definition getImageData ::
  "Context2D \<Rightarrow> real \<Rightarrow> real \<Rightarrow> real \<Rightarrow> real \<Rightarrow> error + ImageData \<times> Context2D" where
  "getImageData ctx sx sy sw sh =
     bindE (to_long sx) (\<lambda>x.
     bindE (to_long sy) (\<lambda>y.
     bindE (to_long sw) (\<lambda>w.
     bindE (to_long sh) (\<lambda>h.
        if w = 0 \<or> h = 0 then Inl IndexSizeError
        else if \<not> origin_clean ctx then Inl SecurityError
        else
          let x0 = (if w < 0 then x + w else x);
              y0 = (if h < 0 then y + h else y);
              wn = nat \<bar>w\<bar>;
              hn = nat \<bar>h\<bar>
          in Inr (\<lparr>width = wn, height = hn,
                   data = map (\<lambda>i. canvas_byte ctx (x0 + int ((i div 4) mod wn))
                                        (y0 + int ((i div 4) div wn)) (i mod 4))
                              [0..<wn * hn * 4]\<rparr>,
                  ctx\<lparr>transfers := transfers ctx @ [ReadRegion x0 y0 wn hn]\<rparr>)))))"

text \<open>\<open>ctx.putImageData(imgData, dx, dy)\<close>: every pixel of \<open>imgData\<close> that falls inside the
  bitmap replaces the pixel there, all four bytes.\<close>

definition putImageData :: "Context2D \<Rightarrow> ImageData \<Rightarrow> real \<Rightarrow> real \<Rightarrow> error + Context2D" where
  "putImageData ctx imgData dx dy =
     bindE (to_long dx) (\<lambda>x.
     bindE (to_long dy) (\<lambda>y.
        Inr (ctx\<lparr>pixels :=
                   map (\<lambda>i. let px = int ((i div 4) mod canvas_width ctx);
                                py = int ((i div 4) div canvas_width ctx)
                            in if x \<le> px \<and> px < x + int (width imgData) \<and>
                                  y \<le> py \<and> py < y + int (height imgData)
                               then data imgData !
                                      (nat (((py - y) * int (width imgData) + (px - x)) * 4) + i mod 4)
                               else pixels ctx ! i)
                       [0..<length (pixels ctx)],
                 transfers := transfers ctx @ [WriteRegion x y (width imgData) (height imgData)]\<rparr>)))"

subsection \<open>Typed-array access\<close>

definition round_half_even :: "real \<Rightarrow> int" where
  "round_half_even v =
     (let f = \<lfloor>v\<rfloor>; d = v - of_int f
      in if d < 1 / 2 then f else if 1 / 2 < d then f + 1 else if even f then f else f + 1)"

text \<open>The conversion \<open>ToUint8Clamp\<close> applied by every store into a \<open>Uint8ClampedArray\<close>.\<close>

definition to_uint8_clamp :: "real \<Rightarrow> byte" where
  "to_uint8_clamp v = word_of_int (round_half_even (min 255 (max 0 v)))"

text \<open>\<open>data[i]\<close> read as a number, and \<open>data[i] = v\<close>.\<close>

definition get_byte :: "byte list \<Rightarrow> int \<Rightarrow> error + int" where
  "get_byte d i = (if 0 \<le> i \<and> i < int (length d) then Inr (uint (d ! nat i)) else Inl OutOfRange)"

definition set_byte :: "byte list \<Rightarrow> int \<Rightarrow> real \<Rightarrow> error + byte list" where
  "set_byte d i v =
     (if 0 \<le> i \<and> i < int (length d) then Inr (d[nat i := to_uint8_clamp v]) else Inl OutOfRange)"

subsection \<open>Loops\<close>

text \<open>The values a loop \<open>for (let i = lo; i < hi; i += step)\<close> gives to its counter, in
  order. Every loop of the effects has a step of at least 1 (1, or \<open>blockSize \<ge> 2\<close>); the
  guard \<open>0 < step\<close> makes the function total.\<close>

function for_range :: "int \<Rightarrow> int \<Rightarrow> int \<Rightarrow> int list" where
  "for_range i hi step = (if i < hi \<and> 0 < step then i # for_range (i + step) hi step else [])"
  by pat_completeness auto
termination
  by (relation "measure (\<lambda>(i, hi, step). nat (hi - i))") auto

text \<open>Running a loop body over the counter values, threading the state; the first error
  ends the loop.\<close>

primrec foldE :: "('a \<Rightarrow> 's \<Rightarrow> error + 's) \<Rightarrow> 'a list \<Rightarrow> 's \<Rightarrow> error + 's" where
  "foldE f [] s = Inr s"
| "foldE f (x # xs) s = bindE (f x s) (foldE f xs)"

subsection \<open>Geometry shared by the effects\<close>

text \<open>\<open>Math.floor(a / b)\<close> on integer-valued numbers.\<close>

definition floor_div :: "int \<Rightarrow> int \<Rightarrow> int" where
  "floor_div a b = \<lfloor>real_of_int a / real_of_int b\<rfloor>"

text \<open>\<open>Math.sqrt((x - centerX) ** 2 + (y - centerY) ** 2)\<close>, at the integer pixel
  coordinates \<open>x\<close>, \<open>y\<close>.\<close>

definition dist_px :: "real \<Rightarrow> real \<Rightarrow> int \<Rightarrow> int \<Rightarrow> real" where
  "dist_px centerX centerY x y = sqrt ((of_int x - centerX)\<^sup>2 + (of_int y - centerY)\<^sup>2)"

subsection \<open>applyPixelate\<close>

definition blockSize :: "BrushSettings \<Rightarrow> int" where
  "blockSize settings = max 2 \<lfloor>intensity settings\<rfloor>"

text \<open>The clipped processing area of steps 1 to 3: the bounding box of the brush, extended
  to whole blocks of the global grid and clipped to the canvas. It spans
  \<open>[safeStartX, safeEndX) \<times> [safeStartY, safeEndY)\<close>.\<close>

record Bounds =
  safeStartX :: int
  safeStartY :: int
  safeEndX :: int
  safeEndY :: int

definition safeWidth :: "Bounds \<Rightarrow> int" where
  "safeWidth b = safeEndX b - safeStartX b"

definition safeHeight :: "Bounds \<Rightarrow> int" where
  "safeHeight b = safeEndY b - safeStartY b"

definition pixelate_bounds :: "Context2D \<Rightarrow> real \<Rightarrow> real \<Rightarrow> BrushSettings \<Rightarrow> Bounds" where
  "pixelate_bounds ctx centerX centerY settings =
     (let canvasWidth = int (canvas_width ctx);
          canvasHeight = int (canvas_height ctx);
          brushMinX = \<lfloor>centerX - radius settings\<rfloor>;
          brushMinY = \<lfloor>centerY - radius settings\<rfloor>;
          brushMaxX = \<lceil>centerX + radius settings\<rceil>;
          brushMaxY = \<lceil>centerY + radius settings\<rceil>;
          startX = floor_div brushMinX (blockSize settings) * blockSize settings;
          startY = floor_div brushMinY (blockSize settings) * blockSize settings;
          endX = floor_div (brushMaxX + blockSize settings - 1) (blockSize settings) * blockSize settings;
          endY = floor_div (brushMaxY + blockSize settings - 1) (blockSize settings) * blockSize settings
      in \<lparr>safeStartX = max 0 startX, safeStartY = max 0 startY,
          safeEndX = min canvasWidth endX, safeEndY = min canvasHeight endY\<rparr>)"

text \<open>The index of the R byte of the pixel \<open>(x, y)\<close> in the array read at the clipped area.\<close>

definition idx_of :: "Bounds \<Rightarrow> int \<Rightarrow> int \<Rightarrow> int" where
  "idx_of b x y = ((y - safeStartY b) * safeWidth b + (x - safeStartX b)) * 4"

text \<open>The body of the averaging loops: \<open>r += data[idx]; g += data[idx + 1];
  b += data[idx + 2]; count++\<close>. The state is \<open>(r, g, b, count)\<close>.\<close>

definition add_pixel :: "byte list \<Rightarrow> int \<Rightarrow> int \<times> int \<times> int \<times> int \<Rightarrow> error + int \<times> int \<times> int \<times> int" where
  "add_pixel d idx acc =
     (case acc of (r, g, b, count) \<Rightarrow>
        bindE (get_byte d idx) (\<lambda>vr.
        bindE (get_byte d (idx + 1)) (\<lambda>vg.
        bindE (get_byte d (idx + 2)) (\<lambda>vb.
          Inr (r + vr, g + vg, b + vb, count + 1)))))"

definition block_sum ::
  "Bounds \<Rightarrow> int \<Rightarrow> int \<Rightarrow> int \<Rightarrow> int \<Rightarrow> byte list \<Rightarrow> error + int \<times> int \<times> int \<times> int" where
  "block_sum b blockMinX blockMinY blockMaxX blockMaxY d =
     foldE (\<lambda>y. foldE (\<lambda>x. add_pixel d (idx_of b x y)) (for_range blockMinX blockMaxX 1))
       (for_range blockMinY blockMaxY 1) (0, 0, 0, 0)"

text \<open>The body of the painting loops: a pixel within \<open>radius\<close> of the brush centre gets the
  block's colour, any other pixel is skipped.\<close>

definition paint_pixel ::
  "Bounds \<Rightarrow> real \<Rightarrow> real \<Rightarrow> BrushSettings \<Rightarrow> int \<Rightarrow> int \<Rightarrow> int \<Rightarrow> int \<Rightarrow> int \<Rightarrow> byte list
     \<Rightarrow> error + byte list" where
  "paint_pixel b centerX centerY settings r g bl x y d =
     (if dist_px centerX centerY x y \<le> radius settings
      then
        bindE (set_byte d (idx_of b x y) (of_int r)) (\<lambda>d1.
        bindE (set_byte d1 (idx_of b x y + 1) (of_int g)) (\<lambda>d2.
          set_byte d2 (idx_of b x y + 2) (of_int bl)))
      else Inr d)"

text \<open>One iteration of the block loops, for the block \<open>[gx, gx + blockSize) \<times>
  [gy, gy + blockSize)\<close>: intersect with the clipped area, average, paint.\<close>

definition process_block ::
  "Bounds \<Rightarrow> real \<Rightarrow> real \<Rightarrow> BrushSettings \<Rightarrow> int \<Rightarrow> int \<Rightarrow> byte list \<Rightarrow> error + byte list" where
  "process_block b centerX centerY settings gy gx d =
     (let blockMinX = max (safeStartX b) gx;
          blockMinY = max (safeStartY b) gy;
          blockMaxX = min (safeEndX b) (gx + blockSize settings);
          blockMaxY = min (safeEndY b) (gy + blockSize settings)
      in if blockMinX \<ge> blockMaxX \<or> blockMinY \<ge> blockMaxY then Inr d
         else
           bindE (block_sum b blockMinX blockMinY blockMaxX blockMaxY d)
             (\<lambda>(r, g, bl, count).
               if count = 0 then Inr d
               else
                 foldE (\<lambda>y. foldE (\<lambda>x. paint_pixel b centerX centerY settings
                                          (floor_div r count) (floor_div g count) (floor_div bl count) x y)
                                (for_range blockMinX blockMaxX 1))
                   (for_range blockMinY blockMaxY 1) d))"

text \<open>Step 5, the loops over the blocks of the global grid that meet the clipped area.\<close>

definition pixelate_data ::
  "Bounds \<Rightarrow> real \<Rightarrow> real \<Rightarrow> BrushSettings \<Rightarrow> byte list \<Rightarrow> error + byte list" where
  "pixelate_data b centerX centerY settings d =
     (let gridStartX = floor_div (safeStartX b) (blockSize settings) * blockSize settings;
          gridStartY = floor_div (safeStartY b) (blockSize settings) * blockSize settings
      in foldE (\<lambda>gy. foldE (\<lambda>gx. process_block b centerX centerY settings gy gx)
                        (for_range gridStartX (safeEndX b) (blockSize settings)))
           (for_range gridStartY (safeEndY b) (blockSize settings)) d)"

definition applyPixelate ::
  "Context2D \<Rightarrow> real \<Rightarrow> real \<Rightarrow> BrushSettings \<Rightarrow> error + Context2D" where
  "applyPixelate ctx centerX centerY settings =
     (let b = pixelate_bounds ctx centerX centerY settings
      in if safeWidth b \<le> 0 \<or> safeHeight b \<le> 0 then Inr ctx
         else
           case getImageData ctx (of_int (safeStartX b)) (of_int (safeStartY b))
                  (of_int (safeWidth b)) (of_int (safeHeight b)) of
             Inl e \<Rightarrow> Inr ctx
           | Inr (imgData, ctx1) \<Rightarrow>
               bindE (pixelate_data b centerX centerY settings (data imgData))
                 (\<lambda>d'. putImageData ctx1 (imgData\<lparr>data := d'\<rparr>)
                         (of_int (safeStartX b)) (of_int (safeStartY b))))"

subsection \<open>applyNoise\<close>

text \<open>The body of the \<open>if (dist <= radius)\<close> branch: three draws, then the three channels
  are rewritten. The state is the array with the number of draws made so far.\<close>

definition noise_pixel ::
  "(nat \<Rightarrow> real) \<Rightarrow> real \<Rightarrow> int \<Rightarrow> byte list \<times> nat \<Rightarrow> error + byte list \<times> nat" where
  "noise_pixel rnd variance pos s =
     (case s of (d, n) \<Rightarrow>
        let randR = (rnd n - 0.5) * variance;
            randG = (rnd (n + 1) - 0.5) * variance;
            randB = (rnd (n + 2) - 0.5) * variance
        in
          bindE (get_byte d pos) (\<lambda>vr.
          bindE (set_byte d pos (min 255 (max 0 (of_int vr + randR)))) (\<lambda>d1.
          bindE (get_byte d1 (pos + 1)) (\<lambda>vg.
          bindE (set_byte d1 (pos + 1) (min 255 (max 0 (of_int vg + randG)))) (\<lambda>d2.
          bindE (get_byte d2 (pos + 2)) (\<lambda>vb.
          bindE (set_byte d2 (pos + 2) (min 255 (max 0 (of_int vb + randB)))) (\<lambda>d3.
            Inr (d3, n + 3))))))))"

definition noise_step ::
  "(nat \<Rightarrow> real) \<Rightarrow> real \<Rightarrow> real \<Rightarrow> BrushSettings \<Rightarrow> int \<Rightarrow> int \<Rightarrow> int \<Rightarrow> int \<Rightarrow> int
     \<Rightarrow> byte list \<times> nat \<Rightarrow> error + byte list \<times> nat" where
  "noise_step rnd x y settings realStartX realStartY w ly lx s =
     (let realX = realStartX + lx;
          realY = realStartY + ly
      in if dist_px x y realX realY \<le> radius settings
         then noise_pixel rnd (intensity settings * 1.5) ((ly * w + lx) * 4) s
         else Inr s)"

definition noise_data ::
  "(nat \<Rightarrow> real) \<Rightarrow> real \<Rightarrow> real \<Rightarrow> BrushSettings \<Rightarrow> int \<Rightarrow> int \<Rightarrow> ImageData
     \<Rightarrow> error + byte list \<times> nat" where
  "noise_data rnd x y settings realStartX realStartY imgData =
     foldE (\<lambda>ly. foldE (\<lambda>lx. noise_step rnd x y settings realStartX realStartY
                                (int (width imgData)) ly lx)
                      (for_range 0 (int (width imgData)) 1))
       (for_range 0 (int (height imgData)) 1) (data imgData, 0)"

definition applyNoise ::
  "(nat \<Rightarrow> real) \<Rightarrow> Context2D \<Rightarrow> real \<Rightarrow> real \<Rightarrow> BrushSettings \<Rightarrow> error + Context2D" where
  "applyNoise rnd ctx x y settings =
     (let diameter = radius settings * 2;
          startX = \<lfloor>x - radius settings\<rfloor>;
          startY = \<lfloor>y - radius settings\<rfloor>;
          safeX = max 0 startX;
          safeY = max 0 startY;
          safeW = min (real (canvas_width ctx) - of_int safeX) diameter;
          safeH = min (real (canvas_height ctx) - of_int safeY) diameter
      in if safeW \<le> 0 \<or> safeH \<le> 0 then Inr ctx
         else
           case getImageData ctx (of_int safeX) (of_int safeY) safeW safeH of
             Inl e \<Rightarrow> Inr ctx
           | Inr (imgData, ctx1) \<Rightarrow>
               (let realStartX = max 0 startX;
                    realStartY = max 0 startY
                in bindE (noise_data rnd x y settings realStartX realStartY imgData)
                     (\<lambda>(d', n). putImageData ctx1 (imgData\<lparr>data := d'\<rparr>)
                                  (of_int realStartX) (of_int realStartY))))"

text \<open>\<open>applyBlur\<close> consists of calls of the browser's path clipping, \<open>filter\<close> and
  \<open>drawImage\<close>; it computes no pixel itself and has no counterpart here.\<close>

definition in_bounds :: "Bounds \<Rightarrow> int \<Rightarrow> int \<Rightarrow> bool" where
  "in_bounds b x y \<longleftrightarrow>
     safeStartX b \<le> x \<and> x < safeEndX b \<and> safeStartY b \<le> y \<and> y < safeEndY b"

definition byte_at :: "Bounds \<Rightarrow> byte list \<Rightarrow> int \<times> int \<times> nat \<Rightarrow> byte" where
  "byte_at b d l = (case l of (x, y, k) \<Rightarrow> d ! (nat (idx_of b x y) + k))"

definition locs :: "Bounds \<Rightarrow> (int \<times> int \<times> nat) set" where
  "locs b = {(x, y, k). in_bounds b x y \<and> k < 4}"

definition data_len :: "Bounds \<Rightarrow> nat" where
  "data_len b = nat (safeWidth b) * nat (safeHeight b) * 4"

definition rgb3 :: "'a \<Rightarrow> 'a \<Rightarrow> 'a \<Rightarrow> nat \<Rightarrow> 'a" where
  "rgb3 r g bl k = (if k = 0 then r else if k = 1 then g else bl)"

subsection \<open>The mosaic as the specification states it\<close>

text \<open>The visible part of the grid cell that contains the column \<open>x\<close> (row \<open>y\<close>): the cell
  \<open>[g, g + blockSize)\<close> with \<open>g\<close> the multiple of \<open>blockSize\<close> below \<open>x\<close>, intersected
  with the clipped area.\<close>

definition cell_xs :: "Bounds \<Rightarrow> int \<Rightarrow> int \<Rightarrow> int list" where
  "cell_xs b bs x = [max (safeStartX b) (x div bs * bs)..min (safeEndX b) (x div bs * bs + bs) - 1]"

definition cell_ys :: "Bounds \<Rightarrow> int \<Rightarrow> int \<Rightarrow> int list" where
  "cell_ys b bs y = [max (safeStartY b) (y div bs * bs)..min (safeEndY b) (y div bs * bs + bs) - 1]"

text \<open>The integer floor of the arithmetic mean of one channel over the pixels
  \<open>xs \<times> ys\<close>.\<close>

definition cell_mean :: "(int \<Rightarrow> int \<Rightarrow> byte) \<Rightarrow> int list \<Rightarrow> int list \<Rightarrow> int" where
  "cell_mean chan xs ys =
     (\<Sum>y\<leftarrow>ys. \<Sum>x\<leftarrow>xs. uint (chan x y)) div (int (length xs) * int (length ys))"

text \<open>Byte \<open>k\<close> of the pixel \<open>(x, y)\<close> after the mosaic, from the bytes \<open>src\<close> before it:
  R, G and B of a pixel within \<open>radius\<close> of the centre become the mean of the pixel's
  visible cell, everything else stays.\<close>

definition mosaic_byte ::
  "Bounds \<Rightarrow> real \<Rightarrow> real \<Rightarrow> BrushSettings \<Rightarrow> (int \<Rightarrow> int \<Rightarrow> nat \<Rightarrow> byte) \<Rightarrow> int \<Rightarrow> int \<Rightarrow> nat \<Rightarrow> byte" where
  "mosaic_byte b centerX centerY settings src x y k =
     (if k < 3 \<and> dist_px centerX centerY x y \<le> radius settings
      then word_of_int (cell_mean (\<lambda>x y. src x y k)
                          (cell_xs b (blockSize settings) x) (cell_ys b (blockSize settings) y))
      else src x y k)"

text \<open>The bytes of the clipped area that lie in the grid cell at \<open>(gx, gy)\<close>.\<close>

definition cell_locs :: "Bounds \<Rightarrow> int \<Rightarrow> int \<Rightarrow> int \<Rightarrow> (int \<times> int \<times> nat) set" where
  "cell_locs b bs gx gy =
     {(x, y, k). in_bounds b x y \<and> k < 4 \<and> gx \<le> x \<and> x < gx + bs \<and> gy \<le> y \<and> y < gy + bs}"

text \<open>The bytes of the clipped area that lie in the row of grid cells at \<open>gy\<close>.\<close>

definition row_locs :: "Bounds \<Rightarrow> int \<Rightarrow> int \<Rightarrow> (int \<times> int \<times> nat) set" where
  "row_locs b bs gy = {(x, y, k). in_bounds b x y \<and> k < 4 \<and> gy \<le> y \<and> y < gy + bs}"

subsection \<open>Concrete canvases\<close>

text \<open>Scenario 2 of the specification: a 4 by 4 canvas of four flat 2 by 2 quadrants,
  (10, 20, 30), (50, 60, 70), (90, 100, 110) and (130, 140, 151), all opaque.\<close>

definition quadrant_row :: "byte list \<Rightarrow> byte list \<Rightarrow> byte list" where
  "quadrant_row p q = p @ p @ q @ q"

definition quadrant_canvas :: Context2D where
  "quadrant_canvas =
     \<lparr>canvas_width = 4, canvas_height = 4,
      pixels = quadrant_row [10, 20, 30, 255] [50, 60, 70, 255] @
               quadrant_row [10, 20, 30, 255] [50, 60, 70, 255] @
               quadrant_row [90, 100, 110, 255] [130, 140, 151, 255] @
               quadrant_row [90, 100, 110, 255] [130, 140, 151, 255],
      origin_clean = True, transfers = []\<rparr>"

subsection \<open>The noise as the specification states it\<close>

text \<open>The rectangle that \<open>applyNoise\<close> reads and writes back: origin
  \<open>(safeX, safeY)\<close>, extent the integer parts of \<open>safeW\<close> and \<open>safeH\<close> (the conversion
  of the arguments of \<open>getImageData\<close>).\<close>

definition noise_bounds :: "Context2D \<Rightarrow> real \<Rightarrow> real \<Rightarrow> BrushSettings \<Rightarrow> Bounds" where
  "noise_bounds ctx x y settings =
     (let diameter = radius settings * 2;
          safeX = max 0 \<lfloor>x - radius settings\<rfloor>;
          safeY = max 0 \<lfloor>y - radius settings\<rfloor>;
          safeW = min (real (canvas_width ctx) - of_int safeX) diameter;
          safeH = min (real (canvas_height ctx) - of_int safeY) diameter
      in \<lparr>safeStartX = safeX, safeStartY = safeY,
          safeEndX = safeX + \<lfloor>safeW\<rfloor>, safeEndY = safeY + \<lfloor>safeH\<rfloor>\<rparr>)"

text \<open>The number stored for a channel of value \<open>v\<close> and a draw \<open>u\<close>: the draw is
  centred, scaled by the variance, added, and the sum clamped.\<close>

definition noise_value :: "byte \<Rightarrow> real \<Rightarrow> real \<Rightarrow> real" where
  "noise_value v u variance = min 255 (max 0 (of_int (uint v) + (u - 0.5) * variance))"

text \<open>A byte \<open>v\<close> is a noised version of the byte \<open>v0\<close>: the stored conversion of
  \<open>noise_value\<close> for some draw of the sequence.\<close>

definition noised :: "(nat \<Rightarrow> real) \<Rightarrow> real \<Rightarrow> byte \<Rightarrow> byte \<Rightarrow> bool" where
  "noised rnd variance v0 v \<longleftrightarrow> (\<exists>m. v = to_uint8_clamp (noise_value v0 (rnd m) variance))"

text \<open>A transfer stays inside the bitmap of the canvas.\<close>

definition transfer_inside :: "Context2D \<Rightarrow> transfer \<Rightarrow> bool" where
  "transfer_inside ctx t =
     (case t of
        ReadRegion x y w h \<Rightarrow>
          0 \<le> x \<and> 0 \<le> y \<and> x + int w \<le> int (canvas_width ctx) \<and> y + int h \<le> int (canvas_height ctx)
      | WriteRegion x y w h \<Rightarrow>
          0 \<le> x \<and> 0 \<le> y \<and> x + int w \<le> int (canvas_width ctx) \<and> y + int h \<le> int (canvas_height ctx))"

text \<open>A readable canvas of the given size, every byte \<open>v\<close>, with no transfer made yet;
  and the same canvas tainted.\<close>

definition flat_canvas :: "nat \<Rightarrow> nat \<Rightarrow> byte \<Rightarrow> Context2D" where
  "flat_canvas w h v =
     \<lparr>canvas_width = w, canvas_height = h, pixels = replicate (w * h * 4) v,
      origin_clean = True, transfers = []\<rparr>"

definition tainted_canvas :: "nat \<Rightarrow> nat \<Rightarrow> byte \<Rightarrow> Context2D" where
  "tainted_canvas w h v = (flat_canvas w h v)\<lparr>origin_clean := False\<rparr>"

text \<open>The cell of the global grid that contains the coordinate \<open>x\<close>, cut at the extent
  \<open>n\<close> of the canvas: the grid has its boundaries at the multiples of \<open>bs\<close>, whatever the
  brush.\<close>

definition grid_cell :: "int \<Rightarrow> int \<Rightarrow> int \<Rightarrow> int list" where
  "grid_cell bs n x = [x div bs * bs..min n (x div bs * bs + bs) - 1]"

section \<open>Basic facts\<close>

lemma bindE_Inl [simp]: "bindE (Inl e) f = Inl e"
  by (simp add: bindE_def)

lemma bindE_Inr [simp]: "bindE (Inr v) f = f v"
  by (simp add: bindE_def)

lemma floor_div_eq: "floor_div a b = a div b"
  by (simp add: floor_div_def floor_divide_of_int_eq)

declare for_range.simps [simp del]

lemma for_range_unit: "for_range lo hi 1 = [lo..hi - 1]"
proof (induction lo hi "1::int" rule: for_range.induct)
  case (1 i hi)
  show ?case
  proof (cases "i < hi")
    case True
    then have "for_range i hi 1 = i # for_range (i + 1) hi 1"
      by (subst for_range.simps) simp
    also have "\<dots> = i # [i + 1..hi - 1]"
      using 1 True by simp
    also have "\<dots> = [i..hi - 1]"
      using True by (simp add: upto_rec1)
    finally show ?thesis .
  next
    case False
    then show ?thesis
      by (subst for_range.simps) simp
  qed
qed

lemma set_for_range_unit: "set (for_range lo hi 1) = {lo..<hi}"
  by (auto simp: for_range_unit)

lemma distinct_for_range_unit: "distinct (for_range lo hi 1)"
  by (simp add: for_range_unit)

lemma for_range_lower: "g \<in> set (for_range lo hi step) \<Longrightarrow> lo \<le> g \<and> g < hi"
proof (induction lo hi step rule: for_range.induct)
  case (1 i hi step)
  show ?case
  proof (cases "i < hi \<and> 0 < step")
    case True
    then have "for_range i hi step = i # for_range (i + step) hi step"
      by (subst for_range.simps) simp
    with 1 True show ?thesis by auto
  next
    case False
    then have "for_range i hi step = []"
      by (subst for_range.simps) simp
    with 1 show ?thesis by simp
  qed
qed

lemma distinct_for_range: "distinct (for_range lo hi step)"
proof (induction lo hi step rule: for_range.induct)
  case (1 i hi step)
  show ?case
  proof (cases "i < hi \<and> 0 < step")
    case True
    then have eq: "for_range i hi step = i # for_range (i + step) hi step"
      by (subst for_range.simps) simp
    have "i \<notin> set (for_range (i + step) hi step)"
      using for_range_lower [of i "i + step" hi step] True by auto
    with 1 True eq show ?thesis by simp
  next
    case False
    then have "for_range i hi step = []"
      by (subst for_range.simps) simp
    then show ?thesis by simp
  qed
qed

lemma for_range_dvd:
  "step dvd lo \<Longrightarrow> g \<in> set (for_range lo hi step) \<Longrightarrow> step dvd g"
proof (induction lo hi step rule: for_range.induct)
  case (1 i hi step)
  show ?case
  proof (cases "i < hi \<and> 0 < step")
    case True
    then have "for_range i hi step = i # for_range (i + step) hi step"
      by (subst for_range.simps) simp
    with 1 True show ?thesis by auto
  next
    case False
    then have "for_range i hi step = []"
      by (subst for_range.simps) simp
    with 1 show ?thesis by simp
  qed
qed

lemma for_range_member:
  "0 < step \<Longrightarrow> lo \<le> g \<Longrightarrow> g < hi \<Longrightarrow> step dvd (g - lo) \<Longrightarrow> g \<in> set (for_range lo hi step)"
proof (induction lo hi step rule: for_range.induct)
  case (1 i hi step)
  from 1 have lt: "i < hi" by simp
  then have eq: "for_range i hi step = i # for_range (i + step) hi step"
    using 1 by (subst for_range.simps) simp
  show ?case
  proof (cases "g = i")
    case True
    with eq show ?thesis by simp
  next
    case False
    from \<open>step dvd (g - i)\<close> obtain k where k: "g - i = step * k" ..
    with False 1 have "0 < k"
      by (metis diff_ge_0_iff_ge dual_order.order_iff_strict eq_iff_diff_eq_0 zero_le_mult_iff not_less mult_zero_right)
    then have "step * 1 \<le> step * k"
      using 1 by (intro mult_left_mono) auto
    then have "i + step \<le> g" using k by simp
    moreover have "step dvd (g - (i + step))"
    proof -
      have "step dvd ((g - i) - step)"
        using \<open>step dvd (g - i)\<close> by (rule dvd_diff) simp
      moreover have "g - (i + step) = (g - i) - step" by simp
      ultimately show ?thesis by (simp only:)
    qed
    ultimately have "g \<in> set (for_range (i + step) hi step)"
      using 1 lt by simp
    with eq show ?thesis by simp
  qed
qed

subsection \<open>Loops whose iterations touch disjoint parts of the state\<close>

lemma foldE_cells_aux:
  assumes sub: "\<And>i. i \<in> set js \<Longrightarrow> A i \<subseteq> L"
    and disj: "\<And>i i'. i \<in> set js \<Longrightarrow> i' \<in> set js \<Longrightarrow> i \<noteq> i' \<Longrightarrow> A i \<inter> A i' = {}"
    and body: "\<And>i t. i \<in> set js \<Longrightarrow> Inv t \<Longrightarrow> (\<forall>l\<in>A i. obs t l = obs s0 l) \<Longrightarrow>
        \<exists>t'. body i t = Inr t' \<and> Inv t' \<and>
          (\<forall>l\<in>L. if l \<in> A i then P l (obs t' l) else obs t' l = obs t l)"
  shows "set is \<subseteq> set js \<Longrightarrow> distinct is \<Longrightarrow> Inv s \<Longrightarrow>
     (\<forall>i\<in>set is. \<forall>l\<in>A i. obs s l = obs s0 l) \<Longrightarrow>
     \<exists>s'. foldE body is s = Inr s' \<and> Inv s' \<and>
       (\<forall>l\<in>L. if l \<in> (\<Union>i\<in>set is. A i) then P l (obs s' l) else obs s' l = obs s l)"
proof (induction "is" arbitrary: s)
  case Nil
  then show ?case by simp
next
  case (Cons i "is")
  from Cons.prems have i: "i \<in> set js" and rest: "set is \<subseteq> set js"
    and ni: "i \<notin> set is" and dis: "distinct is" by auto
  from body [OF i \<open>Inv s\<close>] Cons.prems(4)
  obtain t where t: "body i s = Inr t" "Inv t"
    and tl: "\<forall>l\<in>L. if l \<in> A i then P l (obs t l) else obs t l = obs s l"
    by auto
  have agree: "\<forall>i'\<in>set is. \<forall>l\<in>A i'. obs t l = obs s0 l"
  proof (intro ballI)
    fix i' l assume i': "i' \<in> set is" and l: "l \<in> A i'"
    from i' rest have i'js: "i' \<in> set js" by auto
    from i' ni have "i \<noteq> i'" by auto
    with disj [OF i i'js] l have "l \<notin> A i" by auto
    moreover from sub [OF i'js] l have "l \<in> L" by auto
    ultimately have "obs t l = obs s l" using tl by auto
    with Cons.prems(4) i' l show "obs t l = obs s0 l" by simp
  qed
  from Cons.IH [OF rest dis \<open>Inv t\<close> agree]
  obtain s' where s': "foldE body is t = Inr s'" "Inv s'"
    and sl: "\<forall>l\<in>L. if l \<in> (\<Union>i\<in>set is. A i) then P l (obs s' l) else obs s' l = obs t l"
    by auto
  have "\<forall>l\<in>L. if l \<in> (\<Union>i\<in>set (i # is). A i) then P l (obs s' l) else obs s' l = obs s l"
  proof
    fix l assume lL: "l \<in> L"
    show "if l \<in> (\<Union>i\<in>set (i # is). A i) then P l (obs s' l) else obs s' l = obs s l"
    proof (cases "l \<in> (\<Union>i\<in>set is. A i)")
      case True
      with sl lL show ?thesis by auto
    next
      case False
      with sl lL have eq: "obs s' l = obs t l" by auto
      show ?thesis
      proof (cases "l \<in> A i")
        case True
        with tl lL eq show ?thesis by auto
      next
        case no: False
        with tl lL eq False show ?thesis by auto
      qed
    qed
  qed
  with t s' show ?case by auto
qed

lemma foldE_cells:
  assumes "distinct is" and "Inv s0"
    and "\<And>i. i \<in> set is \<Longrightarrow> A i \<subseteq> L"
    and "\<And>i i'. i \<in> set is \<Longrightarrow> i' \<in> set is \<Longrightarrow> i \<noteq> i' \<Longrightarrow> A i \<inter> A i' = {}"
    and "\<And>i t. i \<in> set is \<Longrightarrow> Inv t \<Longrightarrow> (\<forall>l\<in>A i. obs t l = obs s0 l) \<Longrightarrow>
        \<exists>t'. body i t = Inr t' \<and> Inv t' \<and>
          (\<forall>l\<in>L. if l \<in> A i then P l (obs t' l) else obs t' l = obs t l)"
  shows "\<exists>s'. foldE body is s0 = Inr s' \<and> Inv s' \<and>
       (\<forall>l\<in>L. if l \<in> (\<Union>i\<in>set is. A i) then P l (obs s' l) else obs s' l = obs s0 l)"
  by (rule foldE_cells_aux [where js = "is" and A = A and L = L and Inv = Inv and obs = obs
        and ?s0.0 = s0 and P = P and body = body, OF assms(3,4,5) subset_refl assms(1,2)])
     simp_all

subsection \<open>Indices into the array read at the clipped area\<close>

lemma idx_of_eq: "idx_of b x y = 4 * ((y - safeStartY b) * safeWidth b + (x - safeStartX b))"
  by (simp add: idx_of_def)

lemma cell_index_bounds:
  fixes w h p q :: int
  assumes "0 \<le> p" "p < w" "0 \<le> q" "q < h"
  shows "0 \<le> q * w + p" and "q * w + p < w * h"
proof -
  from assms have "0 \<le> q * w" by simp
  with assms show "0 \<le> q * w + p" by simp
  from assms have "q + 1 \<le> h" by simp
  then have "(q + 1) * w \<le> h * w"
    using assms by (intro mult_right_mono) auto
  with assms show "q * w + p < w * h"
    by (simp add: algebra_simps)
qed

lemma cell_index_inj:
  fixes w p q p' q' :: int
  assumes "0 \<le> p" "p < w" "0 \<le> p'" "p' < w" "q * w + p = q' * w + p'"
  shows "p = p' \<and> q = q'"
proof -
  have "(q * w + p) mod w = p" using assms(1,2) by simp
  moreover have "(q' * w + p') mod w = p'" using assms(3,4) by simp
  moreover have "(q * w + p) mod w = (q' * w + p') mod w" by (simp only: assms(5))
  ultimately have p: "p = p'" by (simp only:)
  with assms have "q * w = q' * w" by simp
  with assms have "q = q'" by simp
  with p show ?thesis by simp
qed

lemma idx_of_range:
  assumes "in_bounds b x y"
  shows "0 \<le> idx_of b x y" and "nat (idx_of b x y) + 3 < data_len b"
proof -
  let ?p = "x - safeStartX b" and ?q = "y - safeStartY b"
  from assms have p: "0 \<le> ?p" "?p < safeWidth b" and q: "0 \<le> ?q" "?q < safeHeight b"
    by (simp_all add: in_bounds_def safeWidth_def safeHeight_def)
  from cell_index_bounds [OF p q]
  have c: "0 \<le> ?q * safeWidth b + ?p" "?q * safeWidth b + ?p < safeWidth b * safeHeight b" .
  then show "0 \<le> idx_of b x y" by (simp add: idx_of_eq)
  from p q have pos: "0 < safeWidth b" "0 < safeHeight b" by auto
  have "idx_of b x y + 3 < safeWidth b * safeHeight b * 4"
    using c by (simp add: idx_of_eq)
  moreover have "int (data_len b) = safeWidth b * safeHeight b * 4"
    using pos by (simp add: data_len_def)
  ultimately show "nat (idx_of b x y) + 3 < data_len b"
    using \<open>0 \<le> idx_of b x y\<close> by linarith
qed

lemma quad_split:
  fixes a a' :: int
  shows "4 * a + int k = 4 * a' + int k' \<Longrightarrow> k < 4 \<Longrightarrow> k' < 4 \<Longrightarrow> a = a' \<and> k = k'"
  by presburger

lemma idx_of_inj:
  assumes "in_bounds b x y" "in_bounds b x' y'" "k < 4" "k' < 4"
    and eq: "nat (idx_of b x y) + k = nat (idx_of b x' y') + k'"
  shows "x = x' \<and> y = y' \<and> k = k'"
proof -
  let ?p = "x - safeStartX b" and ?q = "y - safeStartY b"
  let ?p' = "x' - safeStartX b" and ?q' = "y' - safeStartY b"
  from assms have p: "0 \<le> ?p" "?p < safeWidth b" and p': "0 \<le> ?p'" "?p' < safeWidth b"
    by (simp_all add: in_bounds_def safeWidth_def)
  from idx_of_range(1) assms have nn: "0 \<le> idx_of b x y" "0 \<le> idx_of b x' y'" by auto
  from eq nn have "idx_of b x y + int k = idx_of b x' y' + int k'" by linarith
  then have e4: "4 * (?q * safeWidth b + ?p) + int k = 4 * (?q' * safeWidth b + ?p') + int k'"
    by (simp only: idx_of_eq)
  from quad_split [OF this assms(3,4)]
  have "?q * safeWidth b + ?p = ?q' * safeWidth b + ?p'" and kk: "k = k'"
    by simp_all
  from cell_index_inj [OF p p' this(1)] kk show ?thesis by simp
qed

lemma get_byte_in:
  "0 \<le> i \<Longrightarrow> nat i < length d \<Longrightarrow> get_byte d i = Inr (uint (d ! nat i))"
  by (simp add: get_byte_def)

lemma set_byte_in:
  "0 \<le> i \<Longrightarrow> nat i < length d \<Longrightarrow> set_byte d i v = Inr (d[nat i := to_uint8_clamp v])"
  by (simp add: set_byte_def)


lemma paint_pixel_effect:
  assumes xy: "in_bounds b x y" and len: "length t = data_len b"
  shows "\<exists>t'. paint_pixel b centerX centerY settings r g bl x y t = Inr t' \<and>
           length t' = data_len b \<and>
           (\<forall>l\<in>locs b.
              if l \<in> {(x', y', k). x' = x \<and> y' = y \<and> k < 3 \<and>
                        dist_px centerX centerY x y \<le> radius settings}
              then (case l of (x', y', k) \<Rightarrow>
                      byte_at b t' l = to_uint8_clamp (of_int (rgb3 r g bl k)))
              else byte_at b t' l = byte_at b t l)"
proof (cases "dist_px centerX centerY x y \<le> radius settings")
  case False
  then show ?thesis using len by (simp add: paint_pixel_def)
next
  case True
  let ?i = "nat (idx_of b x y)"
  from idx_of_range [OF xy] have nn: "0 \<le> idx_of b x y" and lt: "?i + 3 < data_len b" by auto
  let ?t' = "t[?i := to_uint8_clamp (of_int r), ?i + 1 := to_uint8_clamp (of_int g),
               ?i + 2 := to_uint8_clamp (of_int bl)]"
  have n1: "nat (idx_of b x y + 1) = ?i + 1" and n2: "nat (idx_of b x y + 2) = ?i + 2"
    using nn by linarith+
  have run: "paint_pixel b centerX centerY settings r g bl x y t = Inr ?t'"
    using True nn lt len
    by (simp add: paint_pixel_def set_byte_in n1 n2)
  have "\<forall>l\<in>locs b.
          if l \<in> {(x', y', k). x' = x \<and> y' = y \<and> k < 3 \<and>
                    dist_px centerX centerY x y \<le> radius settings}
          then (case l of (x', y', k) \<Rightarrow>
                  byte_at b ?t' l = to_uint8_clamp (of_int (rgb3 r g bl k)))
          else byte_at b ?t' l = byte_at b t l"
  proof
    fix l assume l: "l \<in> locs b"
    obtain x' y' k where l_eq: "l = (x', y', k)" by (cases l)
    with l have xy': "in_bounds b x' y'" and k: "k < 4" by (simp_all add: locs_def)
    let ?j = "nat (idx_of b x' y') + k"
    from idx_of_range [OF xy'] k have jlt: "?j < data_len b" by simp
    show "if l \<in> {(x', y', k). x' = x \<and> y' = y \<and> k < 3 \<and>
                    dist_px centerX centerY x y \<le> radius settings}
          then (case l of (x', y', k) \<Rightarrow>
                  byte_at b ?t' l = to_uint8_clamp (of_int (rgb3 r g bl k)))
          else byte_at b ?t' l = byte_at b t l"
    proof (cases "x' = x \<and> y' = y")
      case same: True
      consider "k = 0" | "k = 1" | "k = 2" | "k = 3" using k by linarith
      then show ?thesis
        using same lt len True by cases (simp_all add: l_eq byte_at_def rgb3_def)
    next
      case diff: False
      have "?j \<noteq> ?i + m" if "m < 4" for m
        using idx_of_inj [OF xy' xy k that] diff by auto
      from this [of 0] this [of 1] this [of 2]
      have "?j \<noteq> ?i" "?j \<noteq> ?i + 1" "?j \<noteq> ?i + 2" by simp_all
      then have "?t' ! ?j = t ! ?j" by simp
      with diff show ?thesis by (auto simp: l_eq byte_at_def)
    qed
  qed
  with run len show ?thesis by (intro exI [of _ ?t']) simp
qed

subsection \<open>Stores, sums and means\<close>

lemma round_half_even_of_int: "round_half_even (of_int n) = n"
  by (simp add: round_half_even_def)

lemma to_uint8_clamp_of_int:
  "0 \<le> n \<Longrightarrow> n \<le> 255 \<Longrightarrow> to_uint8_clamp (of_int n) = word_of_int n"
proof -
  assume n: "0 \<le> n" "n \<le> 255"
  then have "min 255 (max 0 (real_of_int n)) = of_int n" by simp
  then show ?thesis by (simp only: to_uint8_clamp_def round_half_even_of_int)
qed

lemma uint_byte_le: "uint (v :: byte) \<le> 255"
  using uint_bounded [of v] by simp

lemma sum_list_uint_bounds:
  fixes f :: "'a \<Rightarrow> byte"
  shows "0 \<le> (\<Sum>x\<leftarrow>xs. uint (f x))" and "(\<Sum>x\<leftarrow>xs. uint (f x)) \<le> 255 * int (length xs)"
proof -
  show "0 \<le> (\<Sum>x\<leftarrow>xs. uint (f x))" by (induction xs) simp_all
  show "(\<Sum>x\<leftarrow>xs. uint (f x)) \<le> 255 * int (length xs)"
  proof (induction xs)
    case Nil
    show ?case by simp
  next
    case (Cons a xs)
    with uint_byte_le [of "f a"] show ?case by simp
  qed
qed

lemma sum_list2_uint_bounds:
  fixes f :: "'a \<Rightarrow> 'b \<Rightarrow> byte"
  shows "0 \<le> (\<Sum>y\<leftarrow>ys. \<Sum>x\<leftarrow>xs. uint (f x y))"
    and "(\<Sum>y\<leftarrow>ys. \<Sum>x\<leftarrow>xs. uint (f x y)) \<le> 255 * (int (length xs) * int (length ys))"
proof -
  show "0 \<le> (\<Sum>y\<leftarrow>ys. \<Sum>x\<leftarrow>xs. uint (f x y))"
  proof (induction ys)
    case Nil
    show ?case by simp
  next
    case (Cons a ys)
    with sum_list_uint_bounds(1) [of "\<lambda>x. f x a" xs] show ?case by simp
  qed
  show "(\<Sum>y\<leftarrow>ys. \<Sum>x\<leftarrow>xs. uint (f x y)) \<le> 255 * (int (length xs) * int (length ys))"
  proof (induction ys)
    case Nil
    show ?case by simp
  next
    case (Cons a ys)
    with sum_list_uint_bounds(2) [of "\<lambda>x. f x a" xs] show ?case
      by (simp add: algebra_simps)
  qed
qed

lemma mean_bounds:
  fixes S c :: int
  assumes "0 \<le> S" "S \<le> 255 * c" "0 \<le> c"
  shows "0 \<le> S div c" and "S div c \<le> 255"
proof -
  show "0 \<le> S div c" using assms by (simp add: div_int_pos_iff)
  show "S div c \<le> 255"
  proof (cases "c = 0")
    case True
    then show ?thesis by simp
  next
    case False
    with assms have pos: "0 < c" by simp
    have "S div c \<le> (255 * c) div c"
      using assms(2) pos by (rule zdiv_mono1)
    with pos show ?thesis by simp
  qed
qed

lemma cell_mean_bounds: "0 \<le> cell_mean chan xs ys" "cell_mean chan xs ys \<le> 255"
proof -
  let ?S = "\<Sum>y\<leftarrow>ys. \<Sum>x\<leftarrow>xs. uint (chan x y)"
  let ?c = "int (length xs) * int (length ys)"
  have S: "0 \<le> ?S" "?S \<le> 255 * ?c"
    using sum_list2_uint_bounds [where f = chan and xs = xs and ys = ys] by simp_all
  have c: "0 \<le> ?c" by simp
  from mean_bounds [OF S c]
  show "0 \<le> cell_mean chan xs ys" "cell_mean chan xs ys \<le> 255"
    by (simp_all only: cell_mean_def)
qed

lemma add_pixel_in:
  assumes "in_bounds b x y" "length t = data_len b"
  shows "add_pixel t (idx_of b x y) (r, g, bl, c) =
           Inr (r + uint (byte_at b t (x, y, 0)), g + uint (byte_at b t (x, y, 1)),
                bl + uint (byte_at b t (x, y, 2)), c + 1)"
proof -
  from idx_of_range [OF assms(1)] have nn: "0 \<le> idx_of b x y"
    and lt: "nat (idx_of b x y) + 3 < data_len b" by auto
  have n1: "nat (idx_of b x y + 1) = nat (idx_of b x y) + 1"
    and n2: "nat (idx_of b x y + 2) = nat (idx_of b x y) + 2"
    using nn by linarith+
  show ?thesis
    using nn lt assms(2) by (simp add: add_pixel_def get_byte_in n1 n2 byte_at_def)
qed

lemma add_pixel_row:
  assumes "\<forall>x\<in>set xs. in_bounds b x y" "length t = data_len b"
  shows "foldE (\<lambda>x. add_pixel t (idx_of b x y)) xs (r, g, bl, c) =
           Inr (r + (\<Sum>x\<leftarrow>xs. uint (byte_at b t (x, y, 0))),
                g + (\<Sum>x\<leftarrow>xs. uint (byte_at b t (x, y, 1))),
                bl + (\<Sum>x\<leftarrow>xs. uint (byte_at b t (x, y, 2))),
                c + int (length xs))"
  using assms(1)
proof (induction xs arbitrary: r g bl c)
  case Nil
  show ?case by simp
next
  case (Cons a xs)
  then have a: "in_bounds b a y" and rest: "\<forall>x\<in>set xs. in_bounds b x y" by simp_all
  show ?case
    by (simp add: add_pixel_in [OF a assms(2)] Cons.IH [OF rest] algebra_simps)
qed

lemma add_pixel_rows:
  assumes "\<forall>y\<in>set ys. \<forall>x\<in>set xs. in_bounds b x y" "length t = data_len b"
  shows "foldE (\<lambda>y. foldE (\<lambda>x. add_pixel t (idx_of b x y)) xs) ys (r, g, bl, c) =
           Inr (r + (\<Sum>y\<leftarrow>ys. \<Sum>x\<leftarrow>xs. uint (byte_at b t (x, y, 0))),
                g + (\<Sum>y\<leftarrow>ys. \<Sum>x\<leftarrow>xs. uint (byte_at b t (x, y, 1))),
                bl + (\<Sum>y\<leftarrow>ys. \<Sum>x\<leftarrow>xs. uint (byte_at b t (x, y, 2))),
                c + int (length xs) * int (length ys))"
  using assms(1)
proof (induction ys arbitrary: r g bl c)
  case Nil
  show ?case by simp
next
  case (Cons a ys)
  then have a: "\<forall>x\<in>set xs. in_bounds b x a"
    and rest: "\<forall>y\<in>set ys. \<forall>x\<in>set xs. in_bounds b x y" by simp_all
  show ?case
    by (simp add: add_pixel_row [OF a assms(2)] Cons.IH [OF rest] algebra_simps)
qed

lemma block_sum_value:
  assumes "safeStartX b \<le> x0" "x1 \<le> safeEndX b" "safeStartY b \<le> y0" "y1 \<le> safeEndY b"
    and "length t = data_len b"
  shows "block_sum b x0 y0 x1 y1 t =
           Inr ((\<Sum>y\<leftarrow>[y0..y1 - 1]. \<Sum>x\<leftarrow>[x0..x1 - 1]. uint (byte_at b t (x, y, 0))),
                (\<Sum>y\<leftarrow>[y0..y1 - 1]. \<Sum>x\<leftarrow>[x0..x1 - 1]. uint (byte_at b t (x, y, 1))),
                (\<Sum>y\<leftarrow>[y0..y1 - 1]. \<Sum>x\<leftarrow>[x0..x1 - 1]. uint (byte_at b t (x, y, 2))),
                int (length [x0..x1 - 1]) * int (length [y0..y1 - 1]))"
proof -
  have "\<forall>y\<in>set [y0..y1 - 1]. \<forall>x\<in>set [x0..x1 - 1]. in_bounds b x y"
    using assms(1-4) by (auto simp: in_bounds_def)
  from add_pixel_rows [OF this assms(5), of 0 0 0 0]
  show ?thesis by (simp add: block_sum_def for_range_unit)
qed

subsection \<open>The loops of applyPixelate\<close>

lemma paint_row_effect:
  assumes y: "safeStartY b \<le> y" "y < safeEndY b"
    and x: "safeStartX b \<le> x0" "x1 \<le> safeEndX b"
    and len: "length t = data_len b"
  shows "\<exists>t'. foldE (\<lambda>x. paint_pixel b centerX centerY settings r g bl x y) (for_range x0 x1 1) t = Inr t' \<and>
           length t' = data_len b \<and>
           (\<forall>l\<in>locs b.
              if l \<in> {(x', y', k). x0 \<le> x' \<and> x' < x1 \<and> y' = y \<and> k < 3 \<and>
                        dist_px centerX centerY x' y' \<le> radius settings}
              then (case l of (x', y', k) \<Rightarrow>
                      byte_at b t' l = to_uint8_clamp (of_int (rgb3 r g bl k)))
              else byte_at b t' l = byte_at b t l)"
proof -
  let ?A = "\<lambda>x. {(x' :: int, y' :: int, k :: nat). x' = x \<and> y' = y \<and> k < 3 \<and>
                      dist_px centerX centerY x y \<le> radius settings}"
  let ?P = "\<lambda>(l :: int \<times> int \<times> nat) v. case l of (x', y', k) \<Rightarrow>
                      v = to_uint8_clamp (of_int (rgb3 r g bl k))"
  let ?xs = "for_range x0 x1 1"
  have inb: "in_bounds b i y" if "i \<in> set ?xs" for i
    using that x y by (auto simp: set_for_range_unit in_bounds_def)
  have main: "\<exists>s'. foldE (\<lambda>x. paint_pixel b centerX centerY settings r g bl x y) ?xs t = Inr s' \<and>
          length s' = data_len b \<and>
          (\<forall>l\<in>locs b. if l \<in> (\<Union>i\<in>set ?xs. ?A i) then ?P l (byte_at b s' l)
                        else byte_at b s' l = byte_at b t l)"
  proof (rule foldE_cells [where Inv = "\<lambda>t. length t = data_len b" and obs = "byte_at b"
        and A = ?A and L = "locs b" and P = ?P])
    show "distinct ?xs" by (rule distinct_for_range)
    show "length t = data_len b" by (rule len)
    show "?A i \<subseteq> locs b" if "i \<in> set ?xs" for i
      using inb [OF that] by (auto simp: locs_def)
    show "?A i \<inter> ?A i' = {}" if "i \<noteq> i'" for i i'
      using that by auto
    show "\<exists>t'. paint_pixel b centerX centerY settings r g bl i y u = Inr t' \<and>
            length t' = data_len b \<and>
            (\<forall>l\<in>locs b. if l \<in> ?A i then ?P l (byte_at b t' l)
                          else byte_at b t' l = byte_at b u l)"
      if "i \<in> set ?xs" "length u = data_len b" for i u
      using paint_pixel_effect [OF inb [OF that(1)] that(2)] by simp
  qed
  have eq: "(\<Union>i\<in>set ?xs. ?A i) =
      {(x' :: int, y' :: int, k :: nat). x0 \<le> x' \<and> x' < x1 \<and> y' = y \<and> k < 3 \<and>
         dist_px centerX centerY x' y' \<le> radius settings}"
    by (auto simp: set_for_range_unit)
  show ?thesis using main unfolding eq .
qed

lemma paint_rect_effect:
  assumes x: "safeStartX b \<le> x0" "x1 \<le> safeEndX b"
    and y: "safeStartY b \<le> y0" "y1 \<le> safeEndY b"
    and len: "length t = data_len b"
  shows "\<exists>t'. foldE (\<lambda>y. foldE (\<lambda>x. paint_pixel b centerX centerY settings r g bl x y)
                               (for_range x0 x1 1)) (for_range y0 y1 1) t = Inr t' \<and>
           length t' = data_len b \<and>
           (\<forall>l\<in>locs b.
              if l \<in> {(x', y', k). x0 \<le> x' \<and> x' < x1 \<and> y0 \<le> y' \<and> y' < y1 \<and> k < 3 \<and>
                        dist_px centerX centerY x' y' \<le> radius settings}
              then (case l of (x', y', k) \<Rightarrow>
                      byte_at b t' l = to_uint8_clamp (of_int (rgb3 r g bl k)))
              else byte_at b t' l = byte_at b t l)"
proof -
  let ?A = "\<lambda>y. {(x' :: int, y' :: int, k :: nat). x0 \<le> x' \<and> x' < x1 \<and> y' = y \<and> k < 3 \<and>
                      dist_px centerX centerY x' y' \<le> radius settings}"
  let ?P = "\<lambda>(l :: int \<times> int \<times> nat) v. case l of (x', y', k) \<Rightarrow>
                      v = to_uint8_clamp (of_int (rgb3 r g bl k))"
  let ?ys = "for_range y0 y1 1"
  let ?row = "\<lambda>y. foldE (\<lambda>x. paint_pixel b centerX centerY settings r g bl x y) (for_range x0 x1 1)"
  have iny: "safeStartY b \<le> i \<and> i < safeEndY b" if "i \<in> set ?ys" for i
    using that y by (auto simp: set_for_range_unit)
  have main: "\<exists>s'. foldE ?row ?ys t = Inr s' \<and>
          length s' = data_len b \<and>
          (\<forall>l\<in>locs b. if l \<in> (\<Union>i\<in>set ?ys. ?A i) then ?P l (byte_at b s' l)
                        else byte_at b s' l = byte_at b t l)"
  proof (rule foldE_cells [where Inv = "\<lambda>t. length t = data_len b" and obs = "byte_at b"
        and A = ?A and L = "locs b" and P = ?P])
    show "distinct ?ys" by (rule distinct_for_range)
    show "length t = data_len b" by (rule len)
    show "?A i \<subseteq> locs b" if "i \<in> set ?ys" for i
      using iny [OF that] x by (auto simp: locs_def in_bounds_def)
    show "?A i \<inter> ?A i' = {}" if "i \<noteq> i'" for i i'
      using that by auto
    show "\<exists>t'. ?row i u = Inr t' \<and>
            length t' = data_len b \<and>
            (\<forall>l\<in>locs b. if l \<in> ?A i then ?P l (byte_at b t' l)
                          else byte_at b t' l = byte_at b u l)"
      if "i \<in> set ?ys" "length u = data_len b" for i u
      using paint_row_effect [OF conjunct1 [OF iny [OF that(1)]] conjunct2 [OF iny [OF that(1)]] x that(2)]
      by simp
  qed
  have eq: "(\<Union>i\<in>set ?ys. ?A i) =
      {(x' :: int, y' :: int, k :: nat). x0 \<le> x' \<and> x' < x1 \<and> y0 \<le> y' \<and> y' < y1 \<and> k < 3 \<and>
         dist_px centerX centerY x' y' \<le> radius settings}"
    by (auto simp: set_for_range_unit)
  show ?thesis using main unfolding eq .
qed

lemma blockSize_ge: "2 \<le> blockSize settings"
  by (simp add: blockSize_def)

lemma cell_origin:
  fixes bs g x :: int
  assumes "0 < bs" "bs dvd g" "g \<le> x" "x < g + bs"
  shows "x div bs * bs = g"
proof -
  from assms(2) obtain m where m: "g = bs * m" ..
  have "x div bs = m"
  proof (rule int_div_pos_eq [where r = "x - g"])
    show "x = bs * m + (x - g)" using m by simp
    show "0 \<le> x - g" "x - g < bs" using assms by simp_all
  qed
  with m show ?thesis by simp
qed

lemma sum_list2_cong:
  assumes "\<And>x y. x \<in> set xs \<Longrightarrow> y \<in> set ys \<Longrightarrow> f x y = g x y"
  shows "(\<Sum>y\<leftarrow>ys. \<Sum>x\<leftarrow>xs. (f x y :: int)) = (\<Sum>y\<leftarrow>ys. \<Sum>x\<leftarrow>xs. g x y)"
proof -
  have "map (\<lambda>y. \<Sum>x\<leftarrow>xs. f x y) ys = map (\<lambda>y. \<Sum>x\<leftarrow>xs. g x y) ys"
  proof (rule map_cong [OF refl])
    fix y assume "y \<in> set ys"
    then have "map (\<lambda>x. f x y) xs = map (\<lambda>x. g x y) xs"
      using assms by (intro map_cong [OF refl]) simp
    then show "(\<Sum>x\<leftarrow>xs. f x y) = (\<Sum>x\<leftarrow>xs. g x y)" by (rule arg_cong)
  qed
  then show ?thesis by (rule arg_cong)
qed

lemma rgb3_nth: "k < 3 \<Longrightarrow> rgb3 (f 0) (f 1) (f 2) k = f k"
proof -
  assume "k < 3"
  then consider "k = 0" | "k = 1" | "k = 2" by linarith
  then show ?thesis by cases (simp_all add: rgb3_def)
qed

lemma process_block_effect:
  assumes dvd: "blockSize settings dvd gx" "blockSize settings dvd gy"
    and len: "length t = data_len b"
    and agree: "\<forall>l\<in>cell_locs b (blockSize settings) gx gy. byte_at b t l = byte_at b s0 l"
  shows "\<exists>t'. process_block b centerX centerY settings gy gx t = Inr t' \<and>
           length t' = data_len b \<and>
           (\<forall>l\<in>locs b.
              if l \<in> cell_locs b (blockSize settings) gx gy
              then (case l of (x, y, k) \<Rightarrow>
                      byte_at b t' l =
                        mosaic_byte b centerX centerY settings (\<lambda>x y k. byte_at b s0 (x, y, k)) x y k)
              else byte_at b t' l = byte_at b t l)"
proof -
  let ?bs = "blockSize settings"
  let ?x0 = "max (safeStartX b) gx" and ?x1 = "min (safeEndX b) (gx + ?bs)"
  let ?y0 = "max (safeStartY b) gy" and ?y1 = "min (safeEndY b) (gy + ?bs)"
  let ?C = "cell_locs b ?bs gx gy"
  let ?src = "\<lambda>x y k. byte_at b s0 (x, y, k)"
  have bs: "0 < ?bs" using blockSize_ge [of settings] by simp
  have inC: "(x, y, k) \<in> ?C \<longleftrightarrow> ?x0 \<le> x \<and> x < ?x1 \<and> ?y0 \<le> y \<and> y < ?y1 \<and> k < 4" for x y k
    by (auto simp: cell_locs_def in_bounds_def)
  show ?thesis
  proof (cases "?x0 \<ge> ?x1 \<or> ?y0 \<ge> ?y1")
    case True
    then have run: "process_block b centerX centerY settings gy gx t = Inr t"
      by (simp add: process_block_def Let_def)
    have "l \<notin> ?C" for l
    proof
      assume "l \<in> ?C"
      moreover obtain x y k where "l = (x, y, k)" by (cases l)
      ultimately have "?x0 \<le> x \<and> x < ?x1 \<and> ?y0 \<le> y \<and> y < ?y1" using inC by simp
      with True show False by linarith
    qed
    with run len show ?thesis by simp
  next
    case False
    then have ne: "?x0 < ?x1" "?y0 < ?y1" by linarith+
    let ?xs = "[?x0..?x1 - 1]" and ?ys = "[?y0..?y1 - 1]"
    let ?S = "\<lambda>k. \<Sum>y\<leftarrow>?ys. \<Sum>x\<leftarrow>?xs. uint (byte_at b t (x, y, k))"
    let ?cnt = "int (length ?xs) * int (length ?ys)"
    have cnt: "0 < ?cnt" using ne by simp
    have sumv: "block_sum b ?x0 ?y0 ?x1 ?y1 t = Inr (?S 0, ?S 1, ?S 2, ?cnt)"
      by (rule block_sum_value) (simp_all add: len)
    let ?r = "floor_div (?S 0) ?cnt" and ?g = "floor_div (?S 1) ?cnt" and ?bl = "floor_div (?S 2) ?cnt"
    have run: "process_block b centerX centerY settings gy gx t =
        foldE (\<lambda>y. foldE (\<lambda>x. paint_pixel b centerX centerY settings ?r ?g ?bl x y)
                        (for_range ?x0 ?x1 1)) (for_range ?y0 ?y1 1) t"
    proof -
      have cnt_ne: "?cnt \<noteq> 0" using cnt by linarith
      show ?thesis
        unfolding process_block_def Let_def
        by (simp only: False if_False sumv bindE_Inr prod.case cnt_ne)
    qed
    from paint_rect_effect [where b = b and ?x0.0 = ?x0 and ?x1.0 = ?x1 and ?y0.0 = ?y0
        and ?y1.0 = ?y1 and t = t and centerX = centerX and centerY = centerY
        and settings = settings and r = ?r and g = ?g and bl = ?bl] len
    obtain t' where t': "process_block b centerX centerY settings gy gx t = Inr t'"
      "length t' = data_len b"
      and eff: "\<forall>l\<in>locs b.
              if l \<in> {(x', y', k). ?x0 \<le> x' \<and> x' < ?x1 \<and> ?y0 \<le> y' \<and> y' < ?y1 \<and> k < 3 \<and>
                        dist_px centerX centerY x' y' \<le> radius settings}
              then (case l of (x', y', k) \<Rightarrow>
                      byte_at b t' l = to_uint8_clamp (of_int (rgb3 ?r ?g ?bl k)))
              else byte_at b t' l = byte_at b t l"
      unfolding run by auto
    have sum_eq: "?S k = (\<Sum>y\<leftarrow>?ys. \<Sum>x\<leftarrow>?xs. uint (?src x y k))" if "k < 4" for k
    proof (rule sum_list2_cong)
      fix x y assume "x \<in> set ?xs" "y \<in> set ?ys"
      with that have "(x, y, k) \<in> ?C" using inC by simp
      with agree show "uint (byte_at b t (x, y, k)) = uint (?src x y k)" by simp
    qed
    have "\<forall>l\<in>locs b.
              if l \<in> ?C
              then (case l of (x, y, k) \<Rightarrow>
                      byte_at b t' l = mosaic_byte b centerX centerY settings ?src x y k)
              else byte_at b t' l = byte_at b t l"
    proof
      fix l assume l: "l \<in> locs b"
      obtain x y k where l_eq: "l = (x, y, k)" by (cases l)
      show "if l \<in> ?C
              then (case l of (x, y, k) \<Rightarrow>
                      byte_at b t' l = mosaic_byte b centerX centerY settings ?src x y k)
              else byte_at b t' l = byte_at b t l"
      proof (cases "l \<in> ?C")
        case outside: False
        then have "l \<notin> {(x', y', k). ?x0 \<le> x' \<and> x' < ?x1 \<and> ?y0 \<le> y' \<and> y' < ?y1 \<and> k < 3 \<and>
                        dist_px centerX centerY x' y' \<le> radius settings}"
          using inC [of x y k] by (auto simp: l_eq)
        with eff l outside show ?thesis by auto
      next
        case inside: True
        then have rng: "?x0 \<le> x" "x < ?x1" "?y0 \<le> y" "y < ?y1" "k < 4"
          using inC [of x y k] by (simp_all add: l_eq)
        have gx: "x div ?bs * ?bs = gx"
          using rng by (intro cell_origin [OF bs dvd(1)]) simp_all
        have gy: "y div ?bs * ?bs = gy"
          using rng by (intro cell_origin [OF bs dvd(2)]) simp_all
        have cx: "cell_xs b ?bs x = ?xs" by (simp only: cell_xs_def gx)
        have cy: "cell_ys b ?bs y = ?ys" by (simp only: cell_ys_def gy)
        show ?thesis
        proof (cases "k < 3 \<and> dist_px centerX centerY x y \<le> radius settings")
          case paint: True
          then have "l \<in> {(x', y', k). ?x0 \<le> x' \<and> x' < ?x1 \<and> ?y0 \<le> y' \<and> y' < ?y1 \<and> k < 3 \<and>
                        dist_px centerX centerY x' y' \<le> radius settings}"
            using rng by (simp add: l_eq)
          with eff l have v: "byte_at b t' l = to_uint8_clamp (of_int (rgb3 ?r ?g ?bl k))"
            by (auto simp: l_eq)
          have "rgb3 ?r ?g ?bl k = floor_div (?S k) ?cnt"
            using paint rgb3_nth [of k "\<lambda>k. floor_div (?S k) ?cnt"] by simp
          also have "\<dots> = cell_mean (\<lambda>x y. ?src x y k) ?xs ?ys"
            using sum_eq [OF rng(5)] by (simp only: floor_div_eq cell_mean_def)
          finally have "rgb3 ?r ?g ?bl k = cell_mean (\<lambda>x y. ?src x y k) ?xs ?ys" .
          with v have "byte_at b t' l = word_of_int (cell_mean (\<lambda>x y. ?src x y k) ?xs ?ys)"
            using cell_mean_bounds [of "\<lambda>x y. ?src x y k" ?xs ?ys]
            by (simp only: to_uint8_clamp_of_int)
          with paint inside show ?thesis
            by (simp add: l_eq mosaic_byte_def cx cy)
        next
          case keep: False
          then have "l \<notin> {(x', y', k). ?x0 \<le> x' \<and> x' < ?x1 \<and> ?y0 \<le> y' \<and> y' < ?y1 \<and> k < 3 \<and>
                        dist_px centerX centerY x' y' \<le> radius settings}"
            by (auto simp: l_eq)
          with eff l have "byte_at b t' l = byte_at b t l" by auto
          also have "\<dots> = byte_at b s0 l" using agree inside by simp
          finally show ?thesis using keep inside by (auto simp: l_eq mosaic_byte_def)
        qed
      qed
    qed
    with t' show ?thesis by blast
  qed
qed

lemma cell_of_point:
  fixes bs x :: int
  assumes "0 < bs"
  shows "x div bs * bs \<le> x" and "x < x div bs * bs + bs" and "bs dvd x div bs * bs"
proof -
  have "x = x div bs * bs + x mod bs" by simp
  moreover have "0 \<le> x mod bs" "x mod bs < bs" using assms by simp_all
  ultimately show "x div bs * bs \<le> x" "x < x div bs * bs + bs" by linarith+
  show "bs dvd x div bs * bs" by simp
qed

lemma grid_member:
  fixes bs lo x hi :: int
  assumes "0 < bs" "lo \<le> x" "x < hi"
  shows "x div bs * bs \<in> set (for_range (floor_div lo bs * bs) hi bs)"
proof (rule for_range_member [OF assms(1)])
  have "lo div bs \<le> x div bs" using assms by (intro zdiv_mono1) simp_all
  then show "floor_div lo bs * bs \<le> x div bs * bs"
    using assms(1) by (simp add: floor_div_eq)
  show "x div bs * bs < hi" using cell_of_point(1) [OF assms(1), of x] assms(3) by linarith
  show "bs dvd x div bs * bs - floor_div lo bs * bs" by (simp add: floor_div_eq)
qed

lemma grid_dvd:
  "g \<in> set (for_range (floor_div lo bs * bs) hi bs) \<Longrightarrow> bs dvd g"
  by (rule for_range_dvd [of bs "floor_div lo bs * bs"]) simp_all

lemma cell_locs_disjoint:
  assumes "0 < bs" "bs dvd gx" "bs dvd gx'" "gx \<noteq> gx'"
  shows "cell_locs b bs gx gy \<inter> cell_locs b bs gx' gy = {}"
proof -
  have False if "gx \<le> x" "x < gx + bs" "gx' \<le> x" "x < gx' + bs" for x
    using cell_origin [OF assms(1,2) that(1,2)] cell_origin [OF assms(1,3) that(3,4)] assms(4)
    by simp
  then show ?thesis by (auto simp: cell_locs_def)
qed

lemma row_locs_disjoint:
  assumes "0 < bs" "bs dvd gy" "bs dvd gy'" "gy \<noteq> gy'"
  shows "row_locs b bs gy \<inter> row_locs b bs gy' = {}"
proof -
  have False if "gy \<le> y" "y < gy + bs" "gy' \<le> y" "y < gy' + bs" for y
    using cell_origin [OF assms(1,2) that(1,2)] cell_origin [OF assms(1,3) that(3,4)] assms(4)
    by simp
  then show ?thesis by (auto simp: row_locs_def)
qed

lemma cell_locs_cover:
  assumes "0 < bs"
  shows "(\<Union>gx\<in>set (for_range (floor_div (safeStartX b) bs * bs) (safeEndX b) bs).
            cell_locs b bs gx gy) = row_locs b bs gy"
proof (intro equalityI subsetI)
  fix l assume "l \<in> (\<Union>gx\<in>set (for_range (floor_div (safeStartX b) bs * bs) (safeEndX b) bs).
            cell_locs b bs gx gy)"
  then show "l \<in> row_locs b bs gy" by (auto simp: cell_locs_def row_locs_def)
next
  fix l assume l: "l \<in> row_locs b bs gy"
  obtain x y k where l_eq: "l = (x, y, k)" by (cases l)
  with l have xy: "in_bounds b x y" "k < 4" "gy \<le> y" "y < gy + bs" by (simp_all add: row_locs_def)
  then have "safeStartX b \<le> x" "x < safeEndX b" by (simp_all add: in_bounds_def)
  from grid_member [OF assms this]
  have "x div bs * bs \<in> set (for_range (floor_div (safeStartX b) bs * bs) (safeEndX b) bs)" .
  moreover have "l \<in> cell_locs b bs (x div bs * bs) gy"
    using xy cell_of_point(1,2) [OF assms, of x] by (simp add: l_eq cell_locs_def)
  ultimately show "l \<in> (\<Union>gx\<in>set (for_range (floor_div (safeStartX b) bs * bs) (safeEndX b) bs).
            cell_locs b bs gx gy)" by blast
qed

lemma row_locs_cover:
  assumes "0 < bs"
  shows "(\<Union>gy\<in>set (for_range (floor_div (safeStartY b) bs * bs) (safeEndY b) bs).
            row_locs b bs gy) = locs b"
proof (intro equalityI subsetI)
  fix l assume "l \<in> (\<Union>gy\<in>set (for_range (floor_div (safeStartY b) bs * bs) (safeEndY b) bs).
            row_locs b bs gy)"
  then show "l \<in> locs b" by (auto simp: locs_def row_locs_def)
next
  fix l assume l: "l \<in> locs b"
  obtain x y k where l_eq: "l = (x, y, k)" by (cases l)
  with l have xy: "in_bounds b x y" "k < 4" by (simp_all add: locs_def)
  then have "safeStartY b \<le> y" "y < safeEndY b" by (simp_all add: in_bounds_def)
  from grid_member [OF assms this]
  have "y div bs * bs \<in> set (for_range (floor_div (safeStartY b) bs * bs) (safeEndY b) bs)" .
  moreover have "l \<in> row_locs b bs (y div bs * bs)"
    using xy cell_of_point(1,2) [OF assms, of y] by (simp add: l_eq row_locs_def)
  ultimately show "l \<in> (\<Union>gy\<in>set (for_range (floor_div (safeStartY b) bs * bs) (safeEndY b) bs).
            row_locs b bs gy)" by blast
qed

lemma block_row_effect:
  assumes dvd: "blockSize settings dvd gy"
    and len: "length t = data_len b"
    and agree: "\<forall>l\<in>row_locs b (blockSize settings) gy. byte_at b t l = byte_at b s0 l"
  shows "\<exists>t'. foldE (\<lambda>gx. process_block b centerX centerY settings gy gx)
                  (for_range (floor_div (safeStartX b) (blockSize settings) * blockSize settings)
                     (safeEndX b) (blockSize settings)) t = Inr t' \<and>
           length t' = data_len b \<and>
           (\<forall>l\<in>locs b.
              if l \<in> row_locs b (blockSize settings) gy
              then (case l of (x, y, k) \<Rightarrow>
                      byte_at b t' l =
                        mosaic_byte b centerX centerY settings (\<lambda>x y k. byte_at b s0 (x, y, k)) x y k)
              else byte_at b t' l = byte_at b t l)"
proof -
  let ?bs = "blockSize settings"
  let ?gxs = "for_range (floor_div (safeStartX b) ?bs * ?bs) (safeEndX b) ?bs"
  let ?P = "\<lambda>(l :: int \<times> int \<times> nat) v. case l of (x, y, k) \<Rightarrow>
              v = mosaic_byte b centerX centerY settings (\<lambda>x y k. byte_at b s0 (x, y, k)) x y k"
  have bs: "0 < ?bs" using blockSize_ge [of settings] by simp
  have main: "\<exists>s'. foldE (\<lambda>gx. process_block b centerX centerY settings gy gx) ?gxs t = Inr s' \<and>
          length s' = data_len b \<and>
          (\<forall>l\<in>locs b. if l \<in> (\<Union>i\<in>set ?gxs. cell_locs b ?bs i gy) then ?P l (byte_at b s' l)
                        else byte_at b s' l = byte_at b t l)"
  proof (rule foldE_cells [where Inv = "\<lambda>t. length t = data_len b" and obs = "byte_at b"
        and A = "\<lambda>gx. cell_locs b ?bs gx gy" and L = "locs b" and P = ?P])
    show "distinct ?gxs" by (rule distinct_for_range)
    show "length t = data_len b" by (rule len)
    show "cell_locs b ?bs i gy \<subseteq> locs b" for i
      by (auto simp: cell_locs_def locs_def)
    show "cell_locs b ?bs i gy \<inter> cell_locs b ?bs i' gy = {}"
      if "i \<in> set ?gxs" "i' \<in> set ?gxs" "i \<noteq> i'" for i i'
      using cell_locs_disjoint [OF bs grid_dvd [OF that(1)] grid_dvd [OF that(2)] that(3)] .
    show "\<exists>t'. process_block b centerX centerY settings gy i u = Inr t' \<and>
            length t' = data_len b \<and>
            (\<forall>l\<in>locs b. if l \<in> cell_locs b ?bs i gy then ?P l (byte_at b t' l)
                          else byte_at b t' l = byte_at b u l)"
      if i: "i \<in> set ?gxs" and u: "length u = data_len b"
        and ag: "\<forall>l\<in>cell_locs b ?bs i gy. byte_at b u l = byte_at b t l" for i u
    proof -
      have "\<forall>l\<in>cell_locs b ?bs i gy. byte_at b u l = byte_at b s0 l"
      proof
        fix l assume l: "l \<in> cell_locs b ?bs i gy"
        then have "l \<in> row_locs b ?bs gy" by (auto simp: cell_locs_def row_locs_def)
        with agree ag l show "byte_at b u l = byte_at b s0 l" by simp
      qed
      from process_block_effect [OF grid_dvd [OF i] dvd u this]
      show ?thesis by simp
    qed
  qed
  show ?thesis using main unfolding cell_locs_cover [OF bs] .
qed

lemma pixelate_data_effect:
  assumes len: "length d = data_len b"
  shows "\<exists>d'. pixelate_data b centerX centerY settings d = Inr d' \<and>
           length d' = data_len b \<and>
           (\<forall>l\<in>locs b. case l of (x, y, k) \<Rightarrow>
              byte_at b d' l =
                mosaic_byte b centerX centerY settings (\<lambda>x y k. byte_at b d (x, y, k)) x y k)"
proof -
  let ?bs = "blockSize settings"
  let ?gys = "for_range (floor_div (safeStartY b) ?bs * ?bs) (safeEndY b) ?bs"
  let ?gxs = "for_range (floor_div (safeStartX b) ?bs * ?bs) (safeEndX b) ?bs"
  let ?P = "\<lambda>(l :: int \<times> int \<times> nat) v. case l of (x, y, k) \<Rightarrow>
              v = mosaic_byte b centerX centerY settings (\<lambda>x y k. byte_at b d (x, y, k)) x y k"
  let ?row = "\<lambda>gy. foldE (\<lambda>gx. process_block b centerX centerY settings gy gx) ?gxs"
  have bs: "0 < ?bs" using blockSize_ge [of settings] by simp
  have main: "\<exists>s'. foldE ?row ?gys d = Inr s' \<and>
          length s' = data_len b \<and>
          (\<forall>l\<in>locs b. if l \<in> (\<Union>i\<in>set ?gys. row_locs b ?bs i) then ?P l (byte_at b s' l)
                        else byte_at b s' l = byte_at b d l)"
  proof (rule foldE_cells [where Inv = "\<lambda>t. length t = data_len b" and obs = "byte_at b"
        and A = "\<lambda>gy. row_locs b ?bs gy" and L = "locs b" and P = ?P])
    show "distinct ?gys" by (rule distinct_for_range)
    show "length d = data_len b" by (rule len)
    show "row_locs b ?bs i \<subseteq> locs b" for i
      by (auto simp: row_locs_def locs_def)
    show "row_locs b ?bs i \<inter> row_locs b ?bs i' = {}"
      if "i \<in> set ?gys" "i' \<in> set ?gys" "i \<noteq> i'" for i i'
      using row_locs_disjoint [OF bs grid_dvd [OF that(1)] grid_dvd [OF that(2)] that(3)] .
    show "\<exists>t'. ?row i u = Inr t' \<and>
            length t' = data_len b \<and>
            (\<forall>l\<in>locs b. if l \<in> row_locs b ?bs i then ?P l (byte_at b t' l)
                          else byte_at b t' l = byte_at b u l)"
      if i: "i \<in> set ?gys" and u: "length u = data_len b"
        and ag: "\<forall>l\<in>row_locs b ?bs i. byte_at b u l = byte_at b d l" for i u
      using block_row_effect [OF grid_dvd [OF i] u ag] by simp
  qed
  have "\<exists>s'. foldE ?row ?gys d = Inr s' \<and> length s' = data_len b \<and>
          (\<forall>l\<in>locs b. ?P l (byte_at b s' l))"
    using main unfolding row_locs_cover [OF bs] by auto
  then show ?thesis by (simp add: pixelate_data_def Let_def)
qed

subsection \<open>Reading and writing the canvas\<close>

lemma to_long_of_int:
  "- (2 ^ 31) \<le> i \<Longrightarrow> i < 2 ^ 31 \<Longrightarrow> to_long (of_int i) = Inr i"
  by (simp add: to_long_def)

lemma index_decompose:
  fixes w q r :: int
  assumes "0 < w" "0 \<le> r" "r < w" "0 \<le> q" "k < 4"
  defines "j \<equiv> nat ((q * w + r) * 4) + k"
  shows "j mod 4 = k" and "int ((j div 4) mod nat w) = r" and "int ((j div 4) div nat w) = q"
proof -
  define a where "a = q * w + r"
  have nn: "0 \<le> a" using assms by (simp add: a_def)
  have ij: "int j = a * 4 + int k" using nn by (simp add: j_def a_def)
  have "int (j mod 4) = int j mod 4" by (simp add: zmod_int)
  also have "\<dots> = int k" using assms(5) unfolding ij by simp
  finally show "j mod 4 = k" by simp
  have "int (j div 4) = int j div 4" by (simp add: zdiv_int)
  also have "\<dots> = a" using assms(5) unfolding ij by simp
  finally have d4: "int (j div 4) = a" .
  have "int ((j div 4) mod nat w) = int (j div 4) mod int (nat w)" by (simp add: zmod_int)
  also have "\<dots> = (q * w + r) mod w" using assms(1) by (simp add: d4 a_def)
  also have "\<dots> = r" using assms by simp
  finally show "int ((j div 4) mod nat w) = r" .
  have "int ((j div 4) div nat w) = int (j div 4) div int (nat w)" by (simp add: zdiv_int)
  also have "\<dots> = (q * w + r) div w" using assms(1) by (simp add: d4 a_def)
  also have "\<dots> = q" using assms by simp
  finally show "int ((j div 4) div nat w) = q" .
qed

lemma getImageData_ok:
  assumes args: "to_long sx = Inr (safeStartX b)" "to_long sy = Inr (safeStartY b)"
      "to_long sw = Inr (safeWidth b)" "to_long sh = Inr (safeHeight b)"
    and pos: "0 < safeWidth b" "0 < safeHeight b"
    and clean: "origin_clean ctx"
  shows "\<exists>img. getImageData ctx sx sy sw sh =
             Inr (img, ctx\<lparr>transfers := transfers ctx @
                    [ReadRegion (safeStartX b) (safeStartY b) (nat (safeWidth b)) (nat (safeHeight b))]\<rparr>) \<and>
           width img = nat (safeWidth b) \<and> height img = nat (safeHeight b) \<and>
           length (data img) = data_len b \<and>
           (\<forall>l\<in>locs b. case l of (x, y, k) \<Rightarrow> byte_at b (data img) l = canvas_byte ctx x y k)"
proof -
  let ?w = "nat (safeWidth b)" and ?h = "nat (safeHeight b)"
  let ?f = "\<lambda>i. canvas_byte ctx (safeStartX b + int ((i div 4) mod ?w))
                   (safeStartY b + int ((i div 4) div ?w)) (i mod 4)"
  let ?img = "\<lparr>width = ?w, height = ?h, data = map ?f [0..<?w * ?h * 4]\<rparr>"
  have abs: "nat \<bar>safeWidth b\<bar> = ?w" "nat \<bar>safeHeight b\<bar> = ?h" using pos by simp_all
  have run: "getImageData ctx sx sy sw sh =
      Inr (?img, ctx\<lparr>transfers := transfers ctx @
             [ReadRegion (safeStartX b) (safeStartY b) ?w ?h]\<rparr>)"
    using pos clean by (simp add: getImageData_def args Let_def abs)
  have len: "length (data ?img) = data_len b" by (simp add: data_len_def)
  have "\<forall>l\<in>locs b. case l of (x, y, k) \<Rightarrow> byte_at b (data ?img) l = canvas_byte ctx x y k"
  proof
    fix l assume l: "l \<in> locs b"
    obtain x y k where l_eq: "l = (x, y, k)" by (cases l)
    with l have xy: "in_bounds b x y" and k: "k < 4" by (simp_all add: locs_def)
    let ?j = "nat (idx_of b x y) + k"
    from idx_of_range [OF xy] k have jlt: "?j < ?w * ?h * 4" by (simp add: data_len_def)
    have r: "0 \<le> x - safeStartX b" "x - safeStartX b < safeWidth b" and q: "0 \<le> y - safeStartY b"
      using xy by (simp_all add: in_bounds_def safeWidth_def)
    have j: "?j = nat (((y - safeStartY b) * safeWidth b + (x - safeStartX b)) * 4) + k"
      by (simp add: idx_of_def)
    from index_decompose [OF pos(1) r q k]
    have "?j mod 4 = k" "int ((?j div 4) mod ?w) = x - safeStartX b"
      "int ((?j div 4) div ?w) = y - safeStartY b"
      unfolding j by simp_all
    then have "?f ?j = canvas_byte ctx x y k" by simp
    moreover have "data ?img ! ?j = ?f ?j" using jlt by simp
    ultimately show "case l of (x, y, k) \<Rightarrow> byte_at b (data ?img) l = canvas_byte ctx x y k"
      by (simp add: l_eq byte_at_def)
  qed
  with run len show ?thesis by (intro exI [of _ ?img]) simp
qed

lemma getImageData_refused:
  "\<not> origin_clean ctx \<Longrightarrow> \<exists>e. getImageData ctx sx sy sw sh = Inl e"
  by (auto simp: getImageData_def bindE_def split: sum.splits)

lemma canvas_index_bound:
  assumes "wf_canvas ctx" "0 \<le> x" "x < int (canvas_width ctx)" "0 \<le> y" "y < int (canvas_height ctx)"
    "k < 4"
  shows "nat ((y * int (canvas_width ctx) + x) * 4) + k < length (pixels ctx)"
proof -
  from cell_index_bounds [OF assms(2,3,4,5)]
  have c: "0 \<le> y * int (canvas_width ctx) + x"
    "y * int (canvas_width ctx) + x < int (canvas_width ctx) * int (canvas_height ctx)" .
  define a where "a = y * int (canvas_width ctx) + x"
  define n where "n = int (canvas_width ctx) * int (canvas_height ctx)"
  have "int (length (pixels ctx)) = n * 4"
    using assms(1) by (simp add: wf_canvas_def n_def)
  moreover have "0 \<le> a" "a < n" using c by (simp_all add: a_def n_def)
  ultimately have "nat (a * 4) + k < length (pixels ctx)" using assms(6) by linarith
  then show ?thesis by (simp only: a_def)
qed

lemma putImageData_ok:
  assumes wf: "wf_canvas ctx"
    and args: "to_long dx = Inr (safeStartX b)" "to_long dy = Inr (safeStartY b)"
    and size: "width img = nat (safeWidth b)" "height img = nat (safeHeight b)"
    and pos: "0 < safeWidth b" "0 < safeHeight b"
  shows "\<exists>ctx'. putImageData ctx img dx dy = Inr ctx' \<and>
           canvas_width ctx' = canvas_width ctx \<and> canvas_height ctx' = canvas_height ctx \<and>
           origin_clean ctx' = origin_clean ctx \<and> wf_canvas ctx' \<and>
           transfers ctx' = transfers ctx @
             [WriteRegion (safeStartX b) (safeStartY b) (nat (safeWidth b)) (nat (safeHeight b))] \<and>
           (\<forall>x y k. 0 \<le> x \<and> x < int (canvas_width ctx) \<and> 0 \<le> y \<and> y < int (canvas_height ctx) \<and> k < 4 \<longrightarrow>
              canvas_byte ctx' x y k =
                (if in_bounds b x y then byte_at b (data img) (x, y, k) else canvas_byte ctx x y k))"
proof -
  let ?cw = "canvas_width ctx"
  let ?g = "\<lambda>i. let px = int ((i div 4) mod ?cw); py = int ((i div 4) div ?cw)
              in if safeStartX b \<le> px \<and> px < safeStartX b + int (width img) \<and>
                    safeStartY b \<le> py \<and> py < safeStartY b + int (height img)
                 then data img ! (nat (((py - safeStartY b) * int (width img) + (px - safeStartX b)) * 4) + i mod 4)
                 else pixels ctx ! i"
  let ?ctx' = "ctx\<lparr>pixels := map ?g [0..<length (pixels ctx)],
                   transfers := transfers ctx @
                     [WriteRegion (safeStartX b) (safeStartY b) (width img) (height img)]\<rparr>"
  have run: "putImageData ctx img dx dy = Inr ?ctx'"
    by (simp add: putImageData_def args)
  have wf': "wf_canvas ?ctx'" using wf by (simp add: wf_canvas_def)
  have iw: "int (width img) = safeWidth b" "int (height img) = safeHeight b"
    using size pos by simp_all
  have bytes: "canvas_byte ?ctx' x y k =
      (if in_bounds b x y then byte_at b (data img) (x, y, k) else canvas_byte ctx x y k)"
    if inside: "0 \<le> x" "x < int ?cw" "0 \<le> y" "y < int (canvas_height ctx)" and k: "k < 4"
    for x y k
  proof -
    define i where "i = nat ((y * int ?cw + x) * 4) + k"
    have ilt: "i < length (pixels ctx)"
      unfolding i_def by (rule canvas_index_bound [OF wf inside k])
    have cwpos: "0 < int ?cw" using inside by linarith
    from index_decompose [OF cwpos inside(1,2,3) k]
    have dec: "i mod 4 = k" "int ((i div 4) mod ?cw) = x" "int ((i div 4) div ?cw) = y"
      by (simp_all add: i_def)
    have old: "canvas_byte ctx x y k = pixels ctx ! i"
      using inside by (simp add: canvas_byte_def i_def)
    have "canvas_byte ?ctx' x y k = pixels ?ctx' ! i"
      using inside by (simp add: canvas_byte_def i_def)
    also have "\<dots> = ?g i"
      using ilt by (simp add: Let_def)
    also have "\<dots> = (if in_bounds b x y
        then data img ! (nat (((y - safeStartY b) * safeWidth b + (x - safeStartX b)) * 4) + k)
        else pixels ctx ! i)"
      unfolding Let_def dec iw
      by (simp add: in_bounds_def safeWidth_def safeHeight_def)
    also have "\<dots> = (if in_bounds b x y then byte_at b (data img) (x, y, k) else canvas_byte ctx x y k)"
      by (simp add: byte_at_def idx_of_def old)
    finally show ?thesis .
  qed
  show ?thesis
    using run wf' bytes size by (intro exI [of _ ?ctx']) simp
qed

section \<open>What applyPixelate does to a canvas\<close>

lemma pixelate_bounds_clip:
  "0 \<le> safeStartX (pixelate_bounds ctx centerX centerY settings)"
  "0 \<le> safeStartY (pixelate_bounds ctx centerX centerY settings)"
  "safeEndX (pixelate_bounds ctx centerX centerY settings) \<le> int (canvas_width ctx)"
  "safeEndY (pixelate_bounds ctx centerX centerY settings) \<le> int (canvas_height ctx)"
  by (simp_all add: pixelate_bounds_def Let_def)

lemma mosaic_byte_cong:
  assumes "\<And>x y. in_bounds b x y \<Longrightarrow> src x y k = src' x y k"
    and "in_bounds b x y"
  shows "mosaic_byte b centerX centerY settings src x y k =
         mosaic_byte b centerX centerY settings src' x y k"
proof -
  let ?xs = "cell_xs b (blockSize settings) x" and ?ys = "cell_ys b (blockSize settings) y"
  have "(\<Sum>y\<leftarrow>?ys. \<Sum>x\<leftarrow>?xs. uint (src x y k)) = (\<Sum>y\<leftarrow>?ys. \<Sum>x\<leftarrow>?xs. uint (src' x y k))"
  proof (rule sum_list2_cong)
    fix x' y' assume "x' \<in> set ?xs" "y' \<in> set ?ys"
    then have "in_bounds b x' y'" by (auto simp: cell_xs_def cell_ys_def in_bounds_def)
    from assms(1) [OF this] show "uint (src x' y' k) = uint (src' x' y' k)" by simp
  qed
  then have "cell_mean (\<lambda>x y. src x y k) ?xs ?ys = cell_mean (\<lambda>x y. src' x y k) ?xs ?ys"
    by (simp only: cell_mean_def)
  with assms(1) [OF assms(2)] show ?thesis by (simp add: mosaic_byte_def)
qed

lemma applyPixelate_empty:
  assumes "safeWidth (pixelate_bounds ctx centerX centerY settings) \<le> 0 \<or>
           safeHeight (pixelate_bounds ctx centerX centerY settings) \<le> 0"
  shows "applyPixelate ctx centerX centerY settings = Inr ctx"
  using assms by (simp add: applyPixelate_def Let_def)

lemma applyPixelate_refused:
  assumes "\<not> origin_clean ctx"
  shows "applyPixelate ctx centerX centerY settings = Inr ctx"
proof -
  let ?b = "pixelate_bounds ctx centerX centerY settings"
  from getImageData_refused [OF assms]
  obtain e where "getImageData ctx (of_int (safeStartX ?b)) (of_int (safeStartY ?b))
                  (of_int (safeWidth ?b)) (of_int (safeHeight ?b)) = Inl e" by blast
  then show ?thesis by (simp add: applyPixelate_def Let_def)
qed

lemma applyPixelate_effect:
  assumes wf: "wf_canvas ctx" and clean: "origin_clean ctx"
    and pos: "0 < safeWidth (pixelate_bounds ctx centerX centerY settings)"
             "0 < safeHeight (pixelate_bounds ctx centerX centerY settings)"
  shows "\<exists>ctx'. applyPixelate ctx centerX centerY settings = Inr ctx' \<and>
           canvas_width ctx' = canvas_width ctx \<and> canvas_height ctx' = canvas_height ctx \<and>
           origin_clean ctx' = origin_clean ctx \<and> wf_canvas ctx' \<and>
           transfers ctx' = transfers ctx @
             [ReadRegion (safeStartX (pixelate_bounds ctx centerX centerY settings))
                (safeStartY (pixelate_bounds ctx centerX centerY settings))
                (nat (safeWidth (pixelate_bounds ctx centerX centerY settings)))
                (nat (safeHeight (pixelate_bounds ctx centerX centerY settings))),
              WriteRegion (safeStartX (pixelate_bounds ctx centerX centerY settings))
                (safeStartY (pixelate_bounds ctx centerX centerY settings))
                (nat (safeWidth (pixelate_bounds ctx centerX centerY settings)))
                (nat (safeHeight (pixelate_bounds ctx centerX centerY settings)))] \<and>
           (\<forall>x y k. 0 \<le> x \<and> x < int (canvas_width ctx) \<and> 0 \<le> y \<and> y < int (canvas_height ctx) \<and> k < 4 \<longrightarrow>
              canvas_byte ctx' x y k =
                (if in_bounds (pixelate_bounds ctx centerX centerY settings) x y
                 then mosaic_byte (pixelate_bounds ctx centerX centerY settings)
                        centerX centerY settings (canvas_byte ctx) x y k
                 else canvas_byte ctx x y k))"
proof -
  define b where "b = pixelate_bounds ctx centerX centerY settings"
  note clip = pixelate_bounds_clip [of ctx centerX centerY settings, folded b_def]
  note pos' = pos [folded b_def]
  have cw: "int (canvas_width ctx) < 2 ^ 31" "int (canvas_height ctx) < 2 ^ 31"
    using wf by (simp_all add: wf_canvas_def)
  have rng: "safeStartX b < 2 ^ 31" "safeStartY b < 2 ^ 31" "safeWidth b < 2 ^ 31" "safeHeight b < 2 ^ 31"
    using clip pos' cw by (simp_all add: safeWidth_def safeHeight_def)
  have args: "to_long (of_int (safeStartX b)) = Inr (safeStartX b)"
    "to_long (of_int (safeStartY b)) = Inr (safeStartY b)"
    "to_long (of_int (safeWidth b)) = Inr (safeWidth b)"
    "to_long (of_int (safeHeight b)) = Inr (safeHeight b)"
    using clip pos' rng by (simp_all add: to_long_of_int)
  let ?rd = "ReadRegion (safeStartX b) (safeStartY b) (nat (safeWidth b)) (nat (safeHeight b))"
  let ?wr = "WriteRegion (safeStartX b) (safeStartY b) (nat (safeWidth b)) (nat (safeHeight b))"
  let ?ctx1 = "ctx\<lparr>transfers := transfers ctx @ [?rd]\<rparr>"
  from getImageData_ok [OF args pos' clean]
  obtain img where get: "getImageData ctx (of_int (safeStartX b)) (of_int (safeStartY b))
        (of_int (safeWidth b)) (of_int (safeHeight b)) = Inr (img, ?ctx1)"
    and size: "width img = nat (safeWidth b)" "height img = nat (safeHeight b)"
    and len: "length (data img) = data_len b"
    and src: "\<forall>l\<in>locs b. case l of (x, y, k) \<Rightarrow> byte_at b (data img) l = canvas_byte ctx x y k"
    by blast
  from pixelate_data_effect [OF len, of centerX centerY settings]
  obtain d' where run: "pixelate_data b centerX centerY settings (data img) = Inr d'"
    and len': "length d' = data_len b"
    and eff: "\<forall>l\<in>locs b. case l of (x, y, k) \<Rightarrow>
              byte_at b d' l =
                mosaic_byte b centerX centerY settings (\<lambda>x y k. byte_at b (data img) (x, y, k)) x y k"
    by blast
  have wf1: "wf_canvas ?ctx1" using wf by (simp add: wf_canvas_def)
  have size': "width (img\<lparr>data := d'\<rparr>) = nat (safeWidth b)"
    "height (img\<lparr>data := d'\<rparr>) = nat (safeHeight b)"
    using size by simp_all
  from putImageData_ok [OF wf1 args(1,2) size' pos']
  obtain ctx' where put: "putImageData ?ctx1 (img\<lparr>data := d'\<rparr>)
        (of_int (safeStartX b)) (of_int (safeStartY b)) = Inr ctx'"
    and dims: "canvas_width ctx' = canvas_width ctx" "canvas_height ctx' = canvas_height ctx"
      "origin_clean ctx' = origin_clean ctx" "wf_canvas ctx'"
    and tr: "transfers ctx' = transfers ctx @ [?rd, ?wr]"
    and bytes: "\<forall>x y k. 0 \<le> x \<and> x < int (canvas_width ctx) \<and> 0 \<le> y \<and> y < int (canvas_height ctx) \<and> k < 4 \<longrightarrow>
              canvas_byte ctx' x y k =
                (if in_bounds b x y then byte_at b d' (x, y, k) else canvas_byte ?ctx1 x y k)"
    by auto
  have res: "applyPixelate ctx centerX centerY settings = Inr ctx'"
    using pos' by (simp add: applyPixelate_def Let_def b_def [symmetric] get run put)
  have same1: "canvas_byte ?ctx1 x y k = canvas_byte ctx x y k" for x y k
    by (simp add: canvas_byte_def)
  have "canvas_byte ctx' x y k =
          (if in_bounds b x y then mosaic_byte b centerX centerY settings (canvas_byte ctx) x y k
           else canvas_byte ctx x y k)"
    if inside: "0 \<le> x \<and> x < int (canvas_width ctx) \<and> 0 \<le> y \<and> y < int (canvas_height ctx) \<and> k < 4"
    for x y k
  proof (cases "in_bounds b x y")
    case False
    with bytes inside show ?thesis by (simp add: same1)
  next
    case True
    with inside have l: "(x, y, k) \<in> locs b" by (simp add: locs_def)
    from bytes inside True have "canvas_byte ctx' x y k = byte_at b d' (x, y, k)" by simp
    also have "\<dots> = mosaic_byte b centerX centerY settings
                        (\<lambda>x y k. byte_at b (data img) (x, y, k)) x y k"
      using eff l by auto
    also have "\<dots> = mosaic_byte b centerX centerY settings (canvas_byte ctx) x y k"
    proof (rule mosaic_byte_cong [OF _ True])
      fix x' y' assume "in_bounds b x' y'"
      with inside have "(x', y', k) \<in> locs b" by (simp add: locs_def)
      with src show "byte_at b (data img) (x', y', k) = canvas_byte ctx x' y' k" by auto
    qed
    finally show ?thesis using True by simp
  qed
  with res dims tr show ?thesis unfolding b_def [symmetric] by blast
qed

lemma dist_px_le_iff:
  "dist_px centerX centerY x y \<le> r \<longleftrightarrow>
     0 \<le> r \<and> (of_int x - centerX)\<^sup>2 + (of_int y - centerY)\<^sup>2 \<le> r\<^sup>2"
proof -
  let ?a = "(of_int x - centerX)\<^sup>2 + (of_int y - centerY)\<^sup>2"
  have a: "0 \<le> ?a" by simp
  show ?thesis
  proof (cases "0 \<le> r")
    case False
    have "0 \<le> sqrt ?a" using a by simp
    with False have "\<not> sqrt ?a \<le> r" by linarith
    with False show ?thesis by (simp add: dist_px_def)
  next
    case True
    have "sqrt ?a \<le> r \<longleftrightarrow> ?a \<le> r\<^sup>2"
    proof
      assume "sqrt ?a \<le> r"
      then have "(sqrt ?a)\<^sup>2 \<le> r\<^sup>2" by (intro power_mono) simp_all
      then show "?a \<le> r\<^sup>2" using a by simp
    next
      assume "?a \<le> r\<^sup>2"
      with True show "sqrt ?a \<le> r" by (rule real_le_lsqrt)
    qed
    with True show ?thesis by (simp add: dist_px_def)
  qed
qed

text \<open>C1 (as amended). Whenever the clipped area is not empty and the store lets the
  canvas be read, \<open>applyPixelate\<close> returns a canvas in which, for every pixel \<open>(x, y)\<close> of the
  clipped area whose integer coordinates satisfy
  \<open>sqrt ((x - centerX)\<^sup>2 + (y - centerY)\<^sup>2) \<le> radius\<close> (the test is taken at the pixel's
  indices, not at its geometric centre \<open>(x + 0.5, y + 0.5)\<close>), each of R, G and B is the
  integer floor of the arithmetic mean of that channel over the visible part of the pixel's
  grid cell (the cell \<open>[g, g + blockSize)\<close>, \<open>g\<close> a multiple of \<open>blockSize\<close>, intersected
  with the clipped area), computed from the canvas before the call; every other byte, alpha
  included, is unchanged.\<close>

theorem applyPixelate_cell_mean:
  assumes "wf_canvas ctx" and "origin_clean ctx"
    and "0 < safeWidth (pixelate_bounds ctx centerX centerY settings)"
    and "0 < safeHeight (pixelate_bounds ctx centerX centerY settings)"
  shows "\<exists>ctx'. applyPixelate ctx centerX centerY settings = Inr ctx' \<and>
           (\<forall>x y k. 0 \<le> x \<and> x < int (canvas_width ctx) \<and> 0 \<le> y \<and> y < int (canvas_height ctx) \<and> k < 4 \<longrightarrow>
              canvas_byte ctx' x y k =
                (if in_bounds (pixelate_bounds ctx centerX centerY settings) x y \<and> k < 3 \<and>
                    sqrt ((of_int x - centerX)\<^sup>2 + (of_int y - centerY)\<^sup>2) \<le> radius settings
                 then word_of_int
                        (cell_mean (\<lambda>x y. canvas_byte ctx x y k)
                           (cell_xs (pixelate_bounds ctx centerX centerY settings) (blockSize settings) x)
                           (cell_ys (pixelate_bounds ctx centerX centerY settings) (blockSize settings) y))
                 else canvas_byte ctx x y k))"
proof -
  from applyPixelate_effect [OF assms]
  obtain ctx' where res: "applyPixelate ctx centerX centerY settings = Inr ctx'"
    and bytes: "\<forall>x y k. 0 \<le> x \<and> x < int (canvas_width ctx) \<and> 0 \<le> y \<and> y < int (canvas_height ctx) \<and> k < 4 \<longrightarrow>
              canvas_byte ctx' x y k =
                (if in_bounds (pixelate_bounds ctx centerX centerY settings) x y
                 then mosaic_byte (pixelate_bounds ctx centerX centerY settings)
                        centerX centerY settings (canvas_byte ctx) x y k
                 else canvas_byte ctx x y k)"
    by blast
  show ?thesis
  proof (intro exI conjI allI impI)
    show "applyPixelate ctx centerX centerY settings = Inr ctx'" by (rule res)
  next
    fix x y :: int and k :: nat
    assume "0 \<le> x \<and> x < int (canvas_width ctx) \<and> 0 \<le> y \<and> y < int (canvas_height ctx) \<and> k < 4"
    with bytes show "canvas_byte ctx' x y k =
                (if in_bounds (pixelate_bounds ctx centerX centerY settings) x y \<and> k < 3 \<and>
                    sqrt ((of_int x - centerX)\<^sup>2 + (of_int y - centerY)\<^sup>2) \<le> radius settings
                 then word_of_int
                        (cell_mean (\<lambda>x y. canvas_byte ctx x y k)
                           (cell_xs (pixelate_bounds ctx centerX centerY settings) (blockSize settings) x)
                           (cell_ys (pixelate_bounds ctx centerX centerY settings) (blockSize settings) y))
                 else canvas_byte ctx x y k)"
      by (simp add: mosaic_byte_def dist_px_def)
  qed
qed

lemma quadrant_bounds:
  "pixelate_bounds quadrant_canvas 2 2 \<lparr>radius = 10, intensity = 4\<rparr> =
     \<lparr>safeStartX = 0, safeStartY = 0, safeEndX = 4, safeEndY = 4\<rparr>"
  by (simp add: pixelate_bounds_def floor_div_eq blockSize_def quadrant_canvas_def)

lemma quadrant_pixels:
  "pixels quadrant_canvas =
     [10, 20, 30, 255, 10, 20, 30, 255, 50, 60, 70, 255, 50, 60, 70, 255,
      10, 20, 30, 255, 10, 20, 30, 255, 50, 60, 70, 255, 50, 60, 70, 255,
      90, 100, 110, 255, 90, 100, 110, 255, 130, 140, 151, 255, 130, 140, 151, 255,
      90, 100, 110, 255, 90, 100, 110, 255, 130, 140, 151, 255, 130, 140, 151, 255]"
  by (simp add: quadrant_canvas_def quadrant_row_def)

lemma upto_0_3: "[0..3::int] = [0, 1, 2, 3]"
  by (simp add: upto_rec1)

lemma quadrant_means:
  "cell_mean (\<lambda>x y. canvas_byte quadrant_canvas x y 0) [0..3] [0..3] = 70"
  "cell_mean (\<lambda>x y. canvas_byte quadrant_canvas x y 1) [0..3] [0..3] = 80"
  "cell_mean (\<lambda>x y. canvas_byte quadrant_canvas x y 2) [0..3] [0..3] = 90"
  "canvas_byte quadrant_canvas 3 3 3 = 255"
  by (simp_all add: cell_mean_def upto_0_3 canvas_byte_def quadrant_pixels
        quadrant_canvas_def [THEN arg_cong [where f = canvas_width]]
        quadrant_canvas_def [THEN arg_cong [where f = canvas_height]])

lemma quadrant_wf: "wf_canvas quadrant_canvas"
  by (simp add: wf_canvas_def quadrant_pixels
        quadrant_canvas_def [THEN arg_cong [where f = canvas_width]]
        quadrant_canvas_def [THEN arg_cong [where f = canvas_height]])

lemma quadrant_alpha:
  assumes "x \<in> {0, 1, 2, 3}" "y \<in> {0, 1, 2, 3}"
  shows "canvas_byte quadrant_canvas x y 3 = 255"
  using assms
  by (auto simp: canvas_byte_def quadrant_pixels
        quadrant_canvas_def [THEN arg_cong [where f = canvas_width]]
        quadrant_canvas_def [THEN arg_cong [where f = canvas_height]])

theorem applyPixelate_cell_mean_witness:
  "wf_canvas quadrant_canvas \<and> origin_clean quadrant_canvas \<and>
   0 < safeWidth (pixelate_bounds quadrant_canvas 2 2 \<lparr>radius = 10, intensity = 4\<rparr>) \<and>
   0 < safeHeight (pixelate_bounds quadrant_canvas 2 2 \<lparr>radius = 10, intensity = 4\<rparr>) \<and>
   (\<exists>ctx'. applyPixelate quadrant_canvas 2 2 \<lparr>radius = 10, intensity = 4\<rparr> = Inr ctx' \<and>
      list_all (\<lambda>(x, y). map (canvas_byte ctx' x y) [0, 1, 2, 3] = [70, 80, 90, 255])
        [(0, 0), (1, 0), (2, 0), (3, 0), (0, 1), (1, 1), (2, 1), (3, 1),
         (0, 2), (1, 2), (2, 2), (3, 2), (0, 3), (1, 3), (2, 3), (3, 3)])"
proof -
  let ?st = "\<lparr>radius = 10, intensity = 4\<rparr>"
  let ?b = "pixelate_bounds quadrant_canvas 2 2 ?st"
  have dims: "canvas_width quadrant_canvas = 4" "canvas_height quadrant_canvas = 4"
    by (simp_all add: quadrant_canvas_def)
  have h1: "wf_canvas quadrant_canvas" by (rule quadrant_wf)
  have h2: "origin_clean quadrant_canvas" by (simp add: quadrant_canvas_def)
  have h3: "0 < safeWidth ?b" by (simp add: quadrant_bounds safeWidth_def)
  have h4: "0 < safeHeight ?b" by (simp add: quadrant_bounds safeHeight_def)
  from applyPixelate_cell_mean [OF h1 h2 h3 h4]
  obtain ctx' where res: "applyPixelate quadrant_canvas 2 2 ?st = Inr ctx'"
    and bytes: "\<And>x y k. 0 \<le> x \<and> x < 4 \<and> 0 \<le> y \<and> y < 4 \<and> k < 4 \<Longrightarrow>
              canvas_byte ctx' x y k =
                (if in_bounds ?b x y \<and> k < 3 \<and>
                    sqrt ((of_int x - 2)\<^sup>2 + (of_int y - 2)\<^sup>2) \<le> radius ?st
                 then word_of_int
                        (cell_mean (\<lambda>x y. canvas_byte quadrant_canvas x y k)
                           (cell_xs ?b (blockSize ?st) x) (cell_ys ?b (blockSize ?st) y))
                 else canvas_byte quadrant_canvas x y k)"
    unfolding dims by auto
  have px: "map (canvas_byte ctx' x y) [0, 1, 2, 3] = [70, 80, 90, 255]"
    if xy: "x \<in> {0, 1, 2, 3}" "y \<in> {0, 1, 2, 3}" for x y
  proof -
    have rng: "0 \<le> x \<and> x < 4 \<and> 0 \<le> y \<and> y < 4" using xy by auto
    have inb: "in_bounds ?b x y" using rng by (simp add: quadrant_bounds in_bounds_def)
    have "(real_of_int x - 2)\<^sup>2 \<le> 4" "(real_of_int y - 2)\<^sup>2 \<le> 4"
      using xy by auto
    then have circ: "sqrt ((of_int x - 2)\<^sup>2 + (of_int y - 2)\<^sup>2) \<le> radius ?st"
      using dist_px_le_iff [of 2 2 x y 10] by (simp add: dist_px_def)
    have "x div 4 = 0" "y div 4 = 0" using rng by simp_all
    then have cells: "cell_xs ?b (blockSize ?st) x = [0..3]" "cell_ys ?b (blockSize ?st) y = [0..3]"
      by (simp_all add: cell_xs_def cell_ys_def quadrant_bounds blockSize_def)
    have "canvas_byte ctx' x y 0 = 70" "canvas_byte ctx' x y 1 = 80" "canvas_byte ctx' x y 2 = 90"
      using bytes [of x y 0] bytes [of x y 1] bytes [of x y 2] rng inb circ
      by (simp_all only: cells quadrant_means) simp_all
    moreover have "canvas_byte ctx' x y 3 = 255"
      using bytes [of x y 3] rng quadrant_alpha [OF xy] by simp
    ultimately show ?thesis by simp
  qed
  have "list_all (\<lambda>(x, y). map (canvas_byte ctx' x y) [0, 1, 2, 3] = [70, 80, 90, 255])
        [(0, 0), (1, 0), (2, 0), (3, 0), (0, 1), (1, 1), (2, 1), (3, 1),
         (0, 2), (1, 2), (2, 2), (3, 2), (0, 3), (1, 3), (2, 3), (3, 3)]"
    unfolding list_all_iff
  proof
    fix p :: "int \<times> int"
    assume "p \<in> set [(0, 0), (1, 0), (2, 0), (3, 0), (0, 1), (1, 1), (2, 1), (3, 1),
         (0, 2), (1, 2), (2, 2), (3, 2), (0, 3), (1, 3), (2, 3), (3, 3)]"
    then obtain x y where "p = (x, y)" "x \<in> {0, 1, 2, 3}" "y \<in> {0, 1, 2, 3}" by auto
    with px [of x y]
    show "case p of (x, y) \<Rightarrow> map (canvas_byte ctx' x y) [0, 1, 2, 3] = [70, 80, 90, 255]"
      by (simp only: prod.case)
  qed
  with res h1 h2 h3 h4 show ?thesis by blast
qed

section \<open>What applyNoise does to a canvas\<close>

lemma noise_pixel_effect:
  assumes xy: "in_bounds b x y" and len: "length d = data_len b"
  shows "\<exists>d'. noise_pixel rnd variance (idx_of b x y) (d, n) = Inr (d', n + 3) \<and>
           length d' = data_len b \<and>
           (\<forall>l\<in>locs b.
              if l \<in> {(x', y', k). x' = x \<and> y' = y \<and> k < 3}
              then (case l of (x', y', k) \<Rightarrow>
                      byte_at b d' l =
                        to_uint8_clamp (noise_value (byte_at b d l) (rnd (n + k)) variance))
              else byte_at b d' l = byte_at b d l)"
proof -
  define i where "i = nat (idx_of b x y)"
  from idx_of_range [OF xy] have nn: "0 \<le> idx_of b x y" and lt: "i + 3 < data_len b"
    by (auto simp: i_def)
  have n0: "nat (idx_of b x y) = i" by (simp add: i_def)
  have n1: "nat (idx_of b x y + 1) = i + 1" and n2: "nat (idx_of b x y + 2) = i + 2"
    using nn by (simp_all add: i_def)
  define v0 where "v0 = to_uint8_clamp (noise_value (d ! i) (rnd n) variance)"
  define v1 where "v1 = to_uint8_clamp (noise_value (d ! (i + 1)) (rnd (n + 1)) variance)"
  define v2 where "v2 = to_uint8_clamp (noise_value (d ! (i + 2)) (rnd (n + 2)) variance)"
  define d' where "d' = d[i := v0, i + 1 := v1, i + 2 := v2]"
  have ii: "idx_of b x y = int i" using nn by (simp add: i_def)
  have s1: "nat (int i + 1) = i + 1" "nat (int i + 2) = i + 2" by simp_all
  have run: "noise_pixel rnd variance (idx_of b x y) (d, n) = Inr (d', n + 3)"
    using lt len unfolding ii
    by (simp add: noise_pixel_def Let_def get_byte_def set_byte_def s1
          noise_value_def d'_def v0_def v1_def v2_def del: of_nat_add)
  have len': "length d' = data_len b" using len by (simp add: d'_def)
  have "\<forall>l\<in>locs b.
              if l \<in> {(x', y', k). x' = x \<and> y' = y \<and> k < 3}
              then (case l of (x', y', k) \<Rightarrow>
                      byte_at b d' l =
                        to_uint8_clamp (noise_value (byte_at b d l) (rnd (n + k)) variance))
              else byte_at b d' l = byte_at b d l"
  proof
    fix l assume l: "l \<in> locs b"
    obtain x' y' k where l_eq: "l = (x', y', k)" by (cases l)
    with l have xy': "in_bounds b x' y'" and k: "k < 4" by (simp_all add: locs_def)
    define j where "j = nat (idx_of b x' y') + k"
    show "if l \<in> {(x', y', k). x' = x \<and> y' = y \<and> k < 3}
              then (case l of (x', y', k) \<Rightarrow>
                      byte_at b d' l =
                        to_uint8_clamp (noise_value (byte_at b d l) (rnd (n + k)) variance))
              else byte_at b d' l = byte_at b d l"
    proof (cases "x' = x \<and> y' = y")
      case same: True
      consider "k = 0" | "k = 1" | "k = 2" | "k = 3" using k by linarith
      then show ?thesis
        using same lt len
        by cases (simp_all add: l_eq byte_at_def n0 d'_def v0_def v1_def v2_def)
    next
      case diff: False
      have "j \<noteq> i + m" if "m < 4" for m
        using idx_of_inj [OF xy' xy k that] diff by (auto simp: i_def j_def)
      from this [of 0] this [of 1] this [of 2]
      have "j \<noteq> i" "j \<noteq> i + 1" "j \<noteq> i + 2" by simp_all
      then have "d' ! j = d ! j" by (simp add: d'_def)
      with diff show ?thesis by (auto simp: l_eq byte_at_def j_def)
    qed
  qed
  with run len' show ?thesis by blast
qed

lemma noise_step_effect:
  assumes lx: "0 \<le> lx" "lx < safeWidth b" and ly: "0 \<le> ly" "ly < safeHeight b"
    and len: "length (fst s) = data_len b"
    and agree: "\<forall>l\<in>{(x', y', k). x' = safeStartX b + lx \<and> y' = safeStartY b + ly \<and> k < 3 \<and>
                     dist_px x y x' y' \<le> radius settings}. byte_at b (fst s) l = byte_at b d0 l"
  shows "\<exists>t'. noise_step rnd x y settings (safeStartX b) (safeStartY b) (safeWidth b) ly lx s = Inr t' \<and>
           length (fst t') = data_len b \<and>
           (\<forall>l\<in>locs b.
              if l \<in> {(x', y', k). x' = safeStartX b + lx \<and> y' = safeStartY b + ly \<and> k < 3 \<and>
                        dist_px x y x' y' \<le> radius settings}
              then noised rnd (intensity settings * 1.5) (byte_at b d0 l) (byte_at b (fst t') l)
              else byte_at b (fst t') l = byte_at b (fst s) l)"
proof (cases "dist_px x y (safeStartX b + lx) (safeStartY b + ly) \<le> radius settings")
  case False
  then show ?thesis using len by (auto simp: noise_step_def Let_def)
next
  case True
  obtain d n where s: "s = (d, n)" by (cases s)
  have inb: "in_bounds b (safeStartX b + lx) (safeStartY b + ly)"
    using lx ly by (simp add: in_bounds_def safeWidth_def safeHeight_def)
  have pos: "(ly * safeWidth b + lx) * 4 = idx_of b (safeStartX b + lx) (safeStartY b + ly)"
    by (simp add: idx_of_def)
  from noise_pixel_effect [OF inb, of d rnd "intensity settings * 1.5" n] len
  obtain d' where run: "noise_pixel rnd (intensity settings * 1.5)
        (idx_of b (safeStartX b + lx) (safeStartY b + ly)) (d, n) = Inr (d', n + 3)"
    and len': "length d' = data_len b"
    and eff: "\<forall>l\<in>locs b.
              if l \<in> {(x', y', k). x' = safeStartX b + lx \<and> y' = safeStartY b + ly \<and> k < 3}
              then (case l of (x', y', k) \<Rightarrow>
                      byte_at b d' l =
                        to_uint8_clamp (noise_value (byte_at b d l) (rnd (n + k)) (intensity settings * 1.5)))
              else byte_at b d' l = byte_at b d l"
    by (auto simp: s)
  have step: "noise_step rnd x y settings (safeStartX b) (safeStartY b) (safeWidth b) ly lx s = Inr (d', n + 3)"
    unfolding s noise_step_def Let_def pos using True run by simp
  have "\<forall>l\<in>locs b.
              if l \<in> {(x', y', k). x' = safeStartX b + lx \<and> y' = safeStartY b + ly \<and> k < 3 \<and>
                        dist_px x y x' y' \<le> radius settings}
              then noised rnd (intensity settings * 1.5) (byte_at b d0 l) (byte_at b d' l)
              else byte_at b d' l = byte_at b d l"
  proof
    fix l assume l: "l \<in> locs b"
    obtain x' y' k where l_eq: "l = (x', y', k)" by (cases l)
    show "if l \<in> {(x', y', k). x' = safeStartX b + lx \<and> y' = safeStartY b + ly \<and> k < 3 \<and>
                        dist_px x y x' y' \<le> radius settings}
              then noised rnd (intensity settings * 1.5) (byte_at b d0 l) (byte_at b d' l)
              else byte_at b d' l = byte_at b d l"
    proof (cases "x' = safeStartX b + lx \<and> y' = safeStartY b + ly \<and> k < 3")
      case hit: True
      with eff l have "byte_at b d' l =
          to_uint8_clamp (noise_value (byte_at b d l) (rnd (n + k)) (intensity settings * 1.5))"
        by (auto simp: l_eq)
      moreover have "byte_at b d l = byte_at b d0 l"
        using agree hit True by (auto simp: l_eq s)
      ultimately have "noised rnd (intensity settings * 1.5) (byte_at b d0 l) (byte_at b d' l)"
        unfolding noised_def by auto
      with hit True show ?thesis by (auto simp: l_eq)
    next
      case miss: False
      with eff l have "byte_at b d' l = byte_at b d l" by (auto simp: l_eq)
      with miss show ?thesis by (auto simp: l_eq)
    qed
  qed
  with step len' show ?thesis by (auto simp: s)
qed

lemma noise_row_effect:
  assumes ly: "0 \<le> ly" "ly < safeHeight b"
    and len: "length (fst s) = data_len b"
    and agree: "\<forall>l\<in>{(x', y', k). in_bounds b x' y' \<and> y' = safeStartY b + ly \<and> k < 3 \<and>
                     dist_px x y x' y' \<le> radius settings}. byte_at b (fst s) l = byte_at b d0 l"
  shows "\<exists>t'. foldE (\<lambda>lx. noise_step rnd x y settings (safeStartX b) (safeStartY b) (safeWidth b) ly lx)
                 (for_range 0 (safeWidth b) 1) s = Inr t' \<and>
           length (fst t') = data_len b \<and>
           (\<forall>l\<in>locs b.
              if l \<in> {(x', y', k). in_bounds b x' y' \<and> y' = safeStartY b + ly \<and> k < 3 \<and>
                        dist_px x y x' y' \<le> radius settings}
              then noised rnd (intensity settings * 1.5) (byte_at b d0 l) (byte_at b (fst t') l)
              else byte_at b (fst t') l = byte_at b (fst s) l)"
proof -
  let ?A = "\<lambda>lx. {(x' :: int, y' :: int, k :: nat). x' = safeStartX b + lx \<and> y' = safeStartY b + ly \<and>
                       k < 3 \<and> dist_px x y x' y' \<le> radius settings}"
  let ?P = "\<lambda>l v. noised rnd (intensity settings * 1.5) (byte_at b d0 l) v"
  let ?xs = "for_range 0 (safeWidth b) 1"
  let ?obs = "\<lambda>(s :: byte list \<times> nat) l. byte_at b (fst s) l"
  have rng: "0 \<le> i \<and> i < safeWidth b" if "i \<in> set ?xs" for i
    using that by (auto simp: set_for_range_unit)
  have inrow: "in_bounds b (safeStartX b + i) (safeStartY b + ly)" if "i \<in> set ?xs" for i
    using rng [OF that] ly by (simp add: in_bounds_def safeWidth_def safeHeight_def)
  have main: "\<exists>s'. foldE (\<lambda>lx. noise_step rnd x y settings (safeStartX b) (safeStartY b) (safeWidth b) ly lx)
                 ?xs s = Inr s' \<and>
          length (fst s') = data_len b \<and>
          (\<forall>l\<in>locs b. if l \<in> (\<Union>i\<in>set ?xs. ?A i) then ?P l (?obs s' l)
                        else ?obs s' l = ?obs s l)"
  proof (rule foldE_cells [where Inv = "\<lambda>s. length (fst s) = data_len b" and obs = ?obs
        and A = ?A and L = "locs b" and P = ?P])
    show "distinct ?xs" by (rule distinct_for_range)
    show "length (fst s) = data_len b" by (rule len)
    show "?A i \<subseteq> locs b" if "i \<in> set ?xs" for i
      using inrow [OF that] by (auto simp: locs_def)
    show "?A i \<inter> ?A i' = {}" if "i \<noteq> i'" for i i'
      using that by auto
    show "\<exists>t'. noise_step rnd x y settings (safeStartX b) (safeStartY b) (safeWidth b) ly i u = Inr t' \<and>
            length (fst t') = data_len b \<and>
            (\<forall>l\<in>locs b. if l \<in> ?A i then ?P l (?obs t' l) else ?obs t' l = ?obs u l)"
      if i: "i \<in> set ?xs" and u: "length (fst u) = data_len b"
        and ag: "\<forall>l\<in>?A i. ?obs u l = ?obs s l" for i u
    proof -
      have "\<forall>l\<in>?A i. byte_at b (fst u) l = byte_at b d0 l"
      proof
        fix l assume l: "l \<in> ?A i"
        with inrow [OF i] have "l \<in> {(x', y', k). in_bounds b x' y' \<and> y' = safeStartY b + ly \<and> k < 3 \<and>
                     dist_px x y x' y' \<le> radius settings}" by auto
        with agree have "byte_at b (fst s) l = byte_at b d0 l" by blast
        moreover from ag l have "byte_at b (fst u) l = byte_at b (fst s) l" by blast
        ultimately show "byte_at b (fst u) l = byte_at b d0 l" by simp
      qed
      from noise_step_effect [OF conjunct1 [OF rng [OF i]] conjunct2 [OF rng [OF i]] ly u this]
      show ?thesis by simp
    qed
  qed
  have eq: "(\<Union>i\<in>set ?xs. ?A i) =
      {(x' :: int, y' :: int, k :: nat). in_bounds b x' y' \<and> y' = safeStartY b + ly \<and> k < 3 \<and>
         dist_px x y x' y' \<le> radius settings}"
  proof (intro equalityI subsetI)
    fix l assume "l \<in> (\<Union>i\<in>set ?xs. ?A i)"
    then obtain i where i: "i \<in> set ?xs" "l \<in> ?A i" by blast
    with inrow [OF i(1)]
    show "l \<in> {(x', y', k). in_bounds b x' y' \<and> y' = safeStartY b + ly \<and> k < 3 \<and>
         dist_px x y x' y' \<le> radius settings}" by auto
  next
    fix l assume l: "l \<in> {(x' :: int, y' :: int, k :: nat). in_bounds b x' y' \<and> y' = safeStartY b + ly \<and> k < 3 \<and>
         dist_px x y x' y' \<le> radius settings}"
    obtain x' y' k where l_eq: "l = (x', y', k)" by (cases l)
    with l have "x' - safeStartX b \<in> set ?xs"
      by (auto simp: set_for_range_unit in_bounds_def safeWidth_def)
    moreover have "l \<in> ?A (x' - safeStartX b)" using l by (auto simp: l_eq)
    ultimately show "l \<in> (\<Union>i\<in>set ?xs. ?A i)" by blast
  qed
  show ?thesis using main unfolding eq by simp
qed

lemma noise_data_effect:
  assumes size: "int (width img) = safeWidth b" "int (height img) = safeHeight b"
    and len: "length (data img) = data_len b"
  shows "\<exists>d' n. noise_data rnd x y settings (safeStartX b) (safeStartY b) img = Inr (d', n) \<and>
           length d' = data_len b \<and>
           (\<forall>l\<in>locs b.
              if l \<in> {(x', y', k). k < 3 \<and> dist_px x y x' y' \<le> radius settings}
              then noised rnd (intensity settings * 1.5) (byte_at b (data img) l) (byte_at b d' l)
              else byte_at b d' l = byte_at b (data img) l)"
proof -
  let ?A = "\<lambda>ly. {(x' :: int, y' :: int, k :: nat). in_bounds b x' y' \<and> y' = safeStartY b + ly \<and>
                       k < 3 \<and> dist_px x y x' y' \<le> radius settings}"
  let ?P = "\<lambda>l v. noised rnd (intensity settings * 1.5) (byte_at b (data img) l) v"
  let ?ys = "for_range 0 (safeHeight b) 1"
  let ?obs = "\<lambda>(s :: byte list \<times> nat) l. byte_at b (fst s) l"
  let ?row = "\<lambda>ly. foldE (\<lambda>lx. noise_step rnd x y settings (safeStartX b) (safeStartY b) (safeWidth b) ly lx)
                 (for_range 0 (safeWidth b) 1)"
  have rng: "0 \<le> i \<and> i < safeHeight b" if "i \<in> set ?ys" for i
    using that by (auto simp: set_for_range_unit)
  have main: "\<exists>s'. foldE ?row ?ys (data img, 0) = Inr s' \<and>
          length (fst s') = data_len b \<and>
          (\<forall>l\<in>locs b. if l \<in> (\<Union>i\<in>set ?ys. ?A i) then ?P l (?obs s' l)
                        else ?obs s' l = ?obs (data img, 0) l)"
  proof (rule foldE_cells [where Inv = "\<lambda>s. length (fst s) = data_len b" and obs = ?obs
        and A = ?A and L = "locs b" and P = ?P])
    show "distinct ?ys" by (rule distinct_for_range)
    show "length (fst (data img, 0 :: nat)) = data_len b" using len by simp
    show "?A i \<subseteq> locs b" for i by (auto simp: locs_def)
    show "?A i \<inter> ?A i' = {}" if "i \<noteq> i'" for i i'
      using that by auto
    show "\<exists>t'. ?row i u = Inr t' \<and> length (fst t') = data_len b \<and>
            (\<forall>l\<in>locs b. if l \<in> ?A i then ?P l (?obs t' l) else ?obs t' l = ?obs u l)"
      if i: "i \<in> set ?ys" and u: "length (fst u) = data_len b"
        and ag: "\<forall>l\<in>?A i. ?obs u l = ?obs (data img, 0) l" for i u
    proof -
      have "\<forall>l\<in>?A i. byte_at b (fst u) l = byte_at b (data img) l"
        using ag by simp
      from noise_row_effect [OF conjunct1 [OF rng [OF i]] conjunct2 [OF rng [OF i]] u this]
      show ?thesis by simp
    qed
  qed
  have eq: "l \<in> (\<Union>i\<in>set ?ys. ?A i) \<longleftrightarrow>
      l \<in> {(x' :: int, y' :: int, k :: nat). k < 3 \<and> dist_px x y x' y' \<le> radius settings}"
    if l: "l \<in> locs b" for l
  proof -
    obtain x' y' k where l_eq: "l = (x', y', k)" by (cases l)
    with l have inb: "in_bounds b x' y'" by (simp add: locs_def)
    then have "y' - safeStartY b \<in> set ?ys"
      by (auto simp: set_for_range_unit in_bounds_def safeHeight_def)
    have hit: "l \<in> ?A (y' - safeStartY b)" if "k < 3 \<and> dist_px x y x' y' \<le> radius settings"
      using that inb by (simp add: l_eq)
    show ?thesis
    proof
      assume "l \<in> (\<Union>i\<in>set ?ys. ?A i)"
      then obtain i where "l \<in> ?A i" by blast
      then have "k < 3 \<and> dist_px x y x' y' \<le> radius settings"
        unfolding l_eq by blast
      then show "l \<in> {(x' :: int, y' :: int, k :: nat). k < 3 \<and> dist_px x y x' y' \<le> radius settings}"
        by (simp add: l_eq)
    next
      assume "l \<in> {(x' :: int, y' :: int, k :: nat). k < 3 \<and> dist_px x y x' y' \<le> radius settings}"
      then have "k < 3 \<and> dist_px x y x' y' \<le> radius settings" by (simp add: l_eq)
      from hit [OF this] \<open>y' - safeStartY b \<in> set ?ys\<close>
      show "l \<in> (\<Union>i\<in>set ?ys. ?A i)" by (rule UN_I [rotated])
    qed
  qed
  from main obtain s' where s': "foldE ?row ?ys (data img, 0) = Inr s'"
    "length (fst s') = data_len b"
    and eff0: "\<forall>l\<in>locs b. if l \<in> (\<Union>i\<in>set ?ys. ?A i) then ?P l (?obs s' l)
                        else ?obs s' l = ?obs (data img, 0) l"
    by blast
  have eff: "\<forall>l\<in>locs b. if l \<in> (\<Union>i\<in>set ?ys. ?A i)
                 then noised rnd (intensity settings * 1.5) (byte_at b (data img) l) (byte_at b (fst s') l)
                 else byte_at b (fst s') l = byte_at b (data img) l"
    using eff0 by (simp only: fst_conv)
  have "\<forall>l\<in>locs b.
              if l \<in> {(x', y', k). k < 3 \<and> dist_px x y x' y' \<le> radius settings}
              then noised rnd (intensity settings * 1.5) (byte_at b (data img) l) (byte_at b (fst s') l)
              else byte_at b (fst s') l = byte_at b (data img) l"
  proof
    fix l assume l: "l \<in> locs b"
    from eff l have X: "if l \<in> (\<Union>i\<in>set ?ys. ?A i)
                 then noised rnd (intensity settings * 1.5) (byte_at b (data img) l) (byte_at b (fst s') l)
                 else byte_at b (fst s') l = byte_at b (data img) l"
      by (rule bspec)
    show "if l \<in> {(x', y', k). k < 3 \<and> dist_px x y x' y' \<le> radius settings}
              then noised rnd (intensity settings * 1.5) (byte_at b (data img) l) (byte_at b (fst s') l)
              else byte_at b (fst s') l = byte_at b (data img) l"
    proof (cases "l \<in> (\<Union>i\<in>set ?ys. ?A i)")
      case True
      with eq [OF l] have "l \<in> {(x' :: int, y' :: int, k :: nat). k < 3 \<and> dist_px x y x' y' \<le> radius settings}"
        by blast
      with X True show ?thesis by (simp only: if_True)
    next
      case False
      with eq [OF l] have "l \<notin> {(x' :: int, y' :: int, k :: nat). k < 3 \<and> dist_px x y x' y' \<le> radius settings}"
        by blast
      with X False show ?thesis by (simp only: if_False)
    qed
  qed
  moreover have "noise_data rnd x y settings (safeStartX b) (safeStartY b) img = Inr (fst s', snd s')"
    using s'(1) by (simp add: noise_data_def size)
  ultimately show ?thesis using s'(2) by blast
qed

lemma to_long_nonneg:
  "0 \<le> v \<Longrightarrow> \<lfloor>v\<rfloor> < 2 ^ 31 \<Longrightarrow> to_long v = Inr \<lfloor>v\<rfloor>"
proof -
  assume v: "0 \<le> v" and lt: "\<lfloor>v\<rfloor> < 2 ^ 31"
  from v have "0 \<le> \<lfloor>v\<rfloor>" by simp
  moreover have "- (2 ^ 31) \<le> (0 :: int)" by simp
  ultimately have "- (2 ^ 31) \<le> \<lfloor>v\<rfloor>" by (rule order_trans [rotated])
  with v lt show ?thesis by (simp add: to_long_def)
qed

lemma getImageData_zero:
  assumes "to_long sw = Inr 0 \<or> to_long sh = Inr 0"
  shows "\<exists>e. getImageData ctx sx sy sw sh = Inl e"
  using assms by (auto simp: getImageData_def bindE_def split: sum.splits)

lemma noise_bounds_sel:
  "safeStartX (noise_bounds ctx x y settings) = max 0 \<lfloor>x - radius settings\<rfloor>"
  "safeStartY (noise_bounds ctx x y settings) = max 0 \<lfloor>y - radius settings\<rfloor>"
  "safeWidth (noise_bounds ctx x y settings) =
     \<lfloor>min (real (canvas_width ctx) - of_int (max 0 \<lfloor>x - radius settings\<rfloor>)) (radius settings * 2)\<rfloor>"
  "safeHeight (noise_bounds ctx x y settings) =
     \<lfloor>min (real (canvas_height ctx) - of_int (max 0 \<lfloor>y - radius settings\<rfloor>)) (radius settings * 2)\<rfloor>"
  by (simp_all add: noise_bounds_def Let_def safeWidth_def safeHeight_def)

lemma applyNoise_unfold:
  "applyNoise rnd ctx x y settings =
     (if min (real (canvas_width ctx) - of_int (safeStartX (noise_bounds ctx x y settings)))
            (radius settings * 2) \<le> 0 \<or>
         min (real (canvas_height ctx) - of_int (safeStartY (noise_bounds ctx x y settings)))
            (radius settings * 2) \<le> 0
      then Inr ctx
      else
        case getImageData ctx (of_int (safeStartX (noise_bounds ctx x y settings)))
               (of_int (safeStartY (noise_bounds ctx x y settings)))
               (min (real (canvas_width ctx) - of_int (safeStartX (noise_bounds ctx x y settings)))
                  (radius settings * 2))
               (min (real (canvas_height ctx) - of_int (safeStartY (noise_bounds ctx x y settings)))
                  (radius settings * 2)) of
          Inl e \<Rightarrow> Inr ctx
        | Inr (imgData, ctx1) \<Rightarrow>
            bindE (noise_data rnd x y settings (safeStartX (noise_bounds ctx x y settings))
                     (safeStartY (noise_bounds ctx x y settings)) imgData)
              (\<lambda>(d', n). putImageData ctx1 (imgData\<lparr>data := d'\<rparr>)
                 (of_int (safeStartX (noise_bounds ctx x y settings)))
                 (of_int (safeStartY (noise_bounds ctx x y settings)))))"
  unfolding applyNoise_def Let_def noise_bounds_sel by (rule refl)

lemma applyNoise_noop:
  assumes "\<not> origin_clean ctx \<or> safeWidth (noise_bounds ctx x y settings) \<le> 0 \<or>
           safeHeight (noise_bounds ctx x y settings) \<le> 0"
  shows "applyNoise rnd ctx x y settings = Inr ctx"
proof -
  define b where "b = noise_bounds ctx x y settings"
  define safeW where "safeW = min (real (canvas_width ctx) - of_int (safeStartX b)) (radius settings * 2)"
  define safeH where "safeH = min (real (canvas_height ctx) - of_int (safeStartY b)) (radius settings * 2)"
  have fl: "safeWidth b = \<lfloor>safeW\<rfloor>" "safeHeight b = \<lfloor>safeH\<rfloor>"
    by (simp_all add: b_def safeW_def safeH_def noise_bounds_sel)
  show ?thesis
  proof (cases "safeW \<le> 0 \<or> safeH \<le> 0")
    case True
    then show ?thesis
      unfolding applyNoise_unfold b_def [symmetric] safeW_def [symmetric] safeH_def [symmetric]
      by simp
  next
    case False
    then have pos: "0 < safeW" "0 < safeH" by simp_all
    have "\<exists>e. getImageData ctx (of_int (safeStartX b)) (of_int (safeStartY b)) safeW safeH = Inl e"
    proof (cases "origin_clean ctx")
      case False
      then show ?thesis by (rule getImageData_refused)
    next
      case True
      with assms have "\<lfloor>safeW\<rfloor> \<le> 0 \<or> \<lfloor>safeH\<rfloor> \<le> 0"
        by (simp add: b_def [symmetric] fl)
      moreover have "0 \<le> \<lfloor>safeW\<rfloor>" "0 \<le> \<lfloor>safeH\<rfloor>" using pos by simp_all
      ultimately have z: "\<lfloor>safeW\<rfloor> = 0 \<or> \<lfloor>safeH\<rfloor> = 0" by linarith
      have "to_long safeW = Inr 0 \<or> to_long safeH = Inr 0"
      proof (rule disjE [OF z])
        assume "\<lfloor>safeW\<rfloor> = 0"
        with to_long_nonneg [of safeW] pos show ?thesis by simp
      next
        assume "\<lfloor>safeH\<rfloor> = 0"
        with to_long_nonneg [of safeH] pos show ?thesis by simp
      qed
      then show ?thesis by (rule getImageData_zero)
    qed
    then obtain e where "getImageData ctx (of_int (safeStartX b)) (of_int (safeStartY b)) safeW safeH = Inl e"
      by blast
    with False show ?thesis
      unfolding applyNoise_unfold b_def [symmetric] safeW_def [symmetric] safeH_def [symmetric]
      by simp
  qed
qed

lemma applyNoise_effect:
  assumes wf: "wf_canvas ctx" and clean: "origin_clean ctx"
    and pos: "0 < safeWidth (noise_bounds ctx x y settings)"
             "0 < safeHeight (noise_bounds ctx x y settings)"
  shows "\<exists>ctx'. applyNoise rnd ctx x y settings = Inr ctx' \<and>
           canvas_width ctx' = canvas_width ctx \<and> canvas_height ctx' = canvas_height ctx \<and>
           origin_clean ctx' = origin_clean ctx \<and> wf_canvas ctx' \<and>
           transfers ctx' = transfers ctx @
             [ReadRegion (safeStartX (noise_bounds ctx x y settings))
                (safeStartY (noise_bounds ctx x y settings))
                (nat (safeWidth (noise_bounds ctx x y settings)))
                (nat (safeHeight (noise_bounds ctx x y settings))),
              WriteRegion (safeStartX (noise_bounds ctx x y settings))
                (safeStartY (noise_bounds ctx x y settings))
                (nat (safeWidth (noise_bounds ctx x y settings)))
                (nat (safeHeight (noise_bounds ctx x y settings)))] \<and>
           (\<forall>x' y' k. 0 \<le> x' \<and> x' < int (canvas_width ctx) \<and> 0 \<le> y' \<and> y' < int (canvas_height ctx) \<and> k < 4 \<longrightarrow>
              (if in_bounds (noise_bounds ctx x y settings) x' y' \<and> k < 3 \<and>
                  dist_px x y x' y' \<le> radius settings
               then noised rnd (intensity settings * 1.5) (canvas_byte ctx x' y' k) (canvas_byte ctx' x' y' k)
               else canvas_byte ctx' x' y' k = canvas_byte ctx x' y' k))"
proof -
  define b where "b = noise_bounds ctx x y settings"
  define safeW where "safeW = min (real (canvas_width ctx) - of_int (safeStartX b)) (radius settings * 2)"
  define safeH where "safeH = min (real (canvas_height ctx) - of_int (safeStartY b)) (radius settings * 2)"
  have fl: "safeWidth b = \<lfloor>safeW\<rfloor>" "safeHeight b = \<lfloor>safeH\<rfloor>"
    by (simp_all add: b_def safeW_def safeH_def noise_bounds_sel)
  note pos' = pos [folded b_def]
  have start: "0 \<le> safeStartX b" "0 \<le> safeStartY b"
    by (simp_all add: b_def noise_bounds_sel)
  have cw: "int (canvas_width ctx) < 2 ^ 31" "int (canvas_height ctx) < 2 ^ 31"
    using wf by (simp_all add: wf_canvas_def)
  have W1: "1 \<le> safeW" "1 \<le> safeH" using pos' fl by linarith+
  have Wle: "safeW \<le> real (canvas_width ctx) - of_int (safeStartX b)"
    "safeH \<le> real (canvas_height ctx) - of_int (safeStartY b)"
    by (simp_all add: safeW_def safeH_def)
  have "real_of_int (safeStartX b) < real (canvas_width ctx)"
    "real_of_int (safeStartY b) < real (canvas_height ctx)"
    using W1 Wle by linarith+
  then have sx: "safeStartX b < int (canvas_width ctx)" "safeStartY b < int (canvas_height ctx)"
    by linarith+
  have "real_of_int \<lfloor>safeW\<rfloor> \<le> real (canvas_width ctx)" "real_of_int \<lfloor>safeH\<rfloor> \<le> real (canvas_height ctx)"
    using Wle start of_int_floor_le [of safeW] of_int_floor_le [of safeH] by linarith+
  then have wle: "\<lfloor>safeW\<rfloor> \<le> int (canvas_width ctx)" "\<lfloor>safeH\<rfloor> \<le> int (canvas_height ctx)"
    by linarith+
  have lt31: "\<lfloor>safeW\<rfloor> < 2 ^ 31" "\<lfloor>safeH\<rfloor> < 2 ^ 31"
    using wle cw by linarith+
  have nnW: "0 \<le> safeW" "0 \<le> safeH" using W1 by linarith+
  have args: "to_long (of_int (safeStartX b)) = Inr (safeStartX b)"
    "to_long (of_int (safeStartY b)) = Inr (safeStartY b)"
    "to_long safeW = Inr (safeWidth b)"
    "to_long safeH = Inr (safeHeight b)"
    using start sx cw to_long_nonneg [OF nnW(1) lt31(1)] to_long_nonneg [OF nnW(2) lt31(2)]
    by (simp_all add: to_long_of_int fl)
  let ?rd = "ReadRegion (safeStartX b) (safeStartY b) (nat (safeWidth b)) (nat (safeHeight b))"
  let ?wr = "WriteRegion (safeStartX b) (safeStartY b) (nat (safeWidth b)) (nat (safeHeight b))"
  let ?ctx1 = "ctx\<lparr>transfers := transfers ctx @ [?rd]\<rparr>"
  from getImageData_ok [OF args pos' clean]
  obtain img where get: "getImageData ctx (of_int (safeStartX b)) (of_int (safeStartY b))
        safeW safeH = Inr (img, ?ctx1)"
    and size: "width img = nat (safeWidth b)" "height img = nat (safeHeight b)"
    and len: "length (data img) = data_len b"
    and src: "\<forall>l\<in>locs b. case l of (x, y, k) \<Rightarrow> byte_at b (data img) l = canvas_byte ctx x y k"
    by blast
  have isize: "int (width img) = safeWidth b" "int (height img) = safeHeight b"
    using size pos' by simp_all
  from noise_data_effect [OF isize len, of rnd x y settings]
  obtain d' n where run: "noise_data rnd x y settings (safeStartX b) (safeStartY b) img = Inr (d', n)"
    and len': "length d' = data_len b"
    and eff: "\<forall>l\<in>locs b.
              if l \<in> {(x', y', k). k < 3 \<and> dist_px x y x' y' \<le> radius settings}
              then noised rnd (intensity settings * 1.5) (byte_at b (data img) l) (byte_at b d' l)
              else byte_at b d' l = byte_at b (data img) l"
    by blast
  have wf1: "wf_canvas ?ctx1" using wf by (simp add: wf_canvas_def)
  have size': "width (img\<lparr>data := d'\<rparr>) = nat (safeWidth b)"
    "height (img\<lparr>data := d'\<rparr>) = nat (safeHeight b)"
    using size by simp_all
  from putImageData_ok [OF wf1 args(1,2) size' pos']
  obtain ctx' where put: "putImageData ?ctx1 (img\<lparr>data := d'\<rparr>)
        (of_int (safeStartX b)) (of_int (safeStartY b)) = Inr ctx'"
    and dims: "canvas_width ctx' = canvas_width ctx" "canvas_height ctx' = canvas_height ctx"
      "origin_clean ctx' = origin_clean ctx" "wf_canvas ctx'"
    and tr: "transfers ctx' = transfers ctx @ [?rd, ?wr]"
    and bytes: "\<forall>x y k. 0 \<le> x \<and> x < int (canvas_width ctx) \<and> 0 \<le> y \<and> y < int (canvas_height ctx) \<and> k < 4 \<longrightarrow>
              canvas_byte ctx' x y k =
                (if in_bounds b x y then byte_at b d' (x, y, k) else canvas_byte ?ctx1 x y k)"
    by auto
  have nz: "\<not> (safeW \<le> 0 \<or> safeH \<le> 0)" using W1 by linarith
  have res: "applyNoise rnd ctx x y settings = Inr ctx'"
    unfolding applyNoise_unfold b_def [symmetric] safeW_def [symmetric] safeH_def [symmetric]
    by (simp only: nz if_False get sum.case prod.case run bindE_Inr put)
  have same1: "canvas_byte ?ctx1 x y k = canvas_byte ctx x y k" for x y k
    by (simp add: canvas_byte_def)
  have "if in_bounds b x' y' \<and> k < 3 \<and> dist_px x y x' y' \<le> radius settings
        then noised rnd (intensity settings * 1.5) (canvas_byte ctx x' y' k) (canvas_byte ctx' x' y' k)
        else canvas_byte ctx' x' y' k = canvas_byte ctx x' y' k"
    if inside: "0 \<le> x' \<and> x' < int (canvas_width ctx) \<and> 0 \<le> y' \<and> y' < int (canvas_height ctx) \<and> k < 4"
    for x' y' k
  proof (cases "in_bounds b x' y'")
    case False
    with bytes inside have "canvas_byte ctx' x' y' k = canvas_byte ctx x' y' k"
      by (simp add: same1)
    with False show ?thesis by (simp only: simp_thms if_False)
  next
    case True
    with inside have l: "(x', y', k) \<in> locs b" by (simp add: locs_def)
    from bytes inside True have new: "canvas_byte ctx' x' y' k = byte_at b d' (x', y', k)" by simp
    from src l have old: "byte_at b (data img) (x', y', k) = canvas_byte ctx x' y' k" by auto
    from eff l have X: "if (x', y', k) \<in> {(x', y', k). k < 3 \<and> dist_px x y x' y' \<le> radius settings}
              then noised rnd (intensity settings * 1.5) (byte_at b (data img) (x', y', k)) (byte_at b d' (x', y', k))
              else byte_at b d' (x', y', k) = byte_at b (data img) (x', y', k)"
      by (rule bspec)
    show ?thesis
    proof (cases "k < 3 \<and> dist_px x y x' y' \<le> radius settings")
      case hit: True
      then have "(x', y', k) \<in> {(x', y', k). k < 3 \<and> dist_px x y x' y' \<le> radius settings}" by simp
      with X have "noised rnd (intensity settings * 1.5) (byte_at b (data img) (x', y', k)) (byte_at b d' (x', y', k))"
        by (simp only: if_True)
      then have "noised rnd (intensity settings * 1.5) (canvas_byte ctx x' y' k) (canvas_byte ctx' x' y' k)"
        by (simp only: new old)
      with True hit show ?thesis by (simp only: simp_thms if_True)
    next
      case miss: False
      then have "(x', y', k) \<notin> {(x', y', k). k < 3 \<and> dist_px x y x' y' \<le> radius settings}" by simp
      with X have "byte_at b d' (x', y', k) = byte_at b (data img) (x', y', k)"
        by (simp only: if_False)
      then have "canvas_byte ctx' x' y' k = canvas_byte ctx x' y' k" by (simp only: new old)
      moreover from miss have "\<not> (in_bounds b x' y' \<and> k < 3 \<and> dist_px x y x' y' \<le> radius settings)"
        by blast
      ultimately show ?thesis by (simp only: if_False)
    qed
  qed
  with res dims tr show ?thesis unfolding b_def [symmetric] by blast
qed

section \<open>Properties of the effects\<close>

lemma applyPixelate_total:
  assumes wf: "wf_canvas ctx"
  shows "\<exists>ctx' new. applyPixelate ctx centerX centerY settings = Inr ctx' \<and>
           canvas_width ctx' = canvas_width ctx \<and> canvas_height ctx' = canvas_height ctx \<and>
           wf_canvas ctx' \<and> transfers ctx' = transfers ctx @ new \<and>
           list_all (transfer_inside ctx) new \<and>
           (\<forall>x y k. 0 \<le> x \<and> x < int (canvas_width ctx) \<and> 0 \<le> y \<and> y < int (canvas_height ctx) \<and> k < 4 \<longrightarrow>
              canvas_byte ctx' x y k = canvas_byte ctx x y k \<or>
              k < 3 \<and> in_bounds (pixelate_bounds ctx centerX centerY settings) x y \<and>
              dist_px centerX centerY x y \<le> radius settings)"
proof -
  define b where "b = pixelate_bounds ctx centerX centerY settings"
  show ?thesis
  proof (cases "origin_clean ctx \<and> 0 < safeWidth b \<and> 0 < safeHeight b")
    case False
    then have "applyPixelate ctx centerX centerY settings = Inr ctx"
      using applyPixelate_refused [of ctx centerX centerY settings]
        applyPixelate_empty [of ctx centerX centerY settings]
      unfolding b_def by fastforce
    with wf show ?thesis
      by (intro exI [of _ ctx] exI [of _ "[]"]) simp
  next
    case True
    note clip = pixelate_bounds_clip [of ctx centerX centerY settings, folded b_def]
    from True applyPixelate_effect [OF wf, of centerX centerY settings, folded b_def]
    obtain ctx' where res: "applyPixelate ctx centerX centerY settings = Inr ctx'"
      and dims: "canvas_width ctx' = canvas_width ctx" "canvas_height ctx' = canvas_height ctx"
        "wf_canvas ctx'"
      and tr: "transfers ctx' = transfers ctx @
             [ReadRegion (safeStartX b) (safeStartY b) (nat (safeWidth b)) (nat (safeHeight b)),
              WriteRegion (safeStartX b) (safeStartY b) (nat (safeWidth b)) (nat (safeHeight b))]"
      and bytes: "\<forall>x y k. 0 \<le> x \<and> x < int (canvas_width ctx) \<and> 0 \<le> y \<and> y < int (canvas_height ctx) \<and> k < 4 \<longrightarrow>
              canvas_byte ctx' x y k =
                (if in_bounds b x y then mosaic_byte b centerX centerY settings (canvas_byte ctx) x y k
                 else canvas_byte ctx x y k)"
      by blast
    have inside: "list_all (transfer_inside ctx)
             [ReadRegion (safeStartX b) (safeStartY b) (nat (safeWidth b)) (nat (safeHeight b)),
              WriteRegion (safeStartX b) (safeStartY b) (nat (safeWidth b)) (nat (safeHeight b))]"
      using True clip by (simp add: transfer_inside_def safeWidth_def safeHeight_def)
    have frame: "canvas_byte ctx' x y k = canvas_byte ctx x y k \<or>
              k < 3 \<and> in_bounds b x y \<and> dist_px centerX centerY x y \<le> radius settings"
      if "0 \<le> x \<and> x < int (canvas_width ctx) \<and> 0 \<le> y \<and> y < int (canvas_height ctx) \<and> k < 4"
      for x y k
      using bytes that by (auto simp: mosaic_byte_def)
    from res dims tr inside frame show ?thesis
      unfolding b_def [symmetric] by blast
  qed
qed

lemma noise_bounds_clip:
  assumes "0 < safeWidth (noise_bounds ctx x y settings)" "0 < safeHeight (noise_bounds ctx x y settings)"
  shows "0 \<le> safeStartX (noise_bounds ctx x y settings)"
    "0 \<le> safeStartY (noise_bounds ctx x y settings)"
    "safeEndX (noise_bounds ctx x y settings) \<le> int (canvas_width ctx)"
    "safeEndY (noise_bounds ctx x y settings) \<le> int (canvas_height ctx)"
proof -
  define b where "b = noise_bounds ctx x y settings"
  define safeW where "safeW = min (real (canvas_width ctx) - of_int (safeStartX b)) (radius settings * 2)"
  define safeH where "safeH = min (real (canvas_height ctx) - of_int (safeStartY b)) (radius settings * 2)"
  have fl: "safeWidth b = \<lfloor>safeW\<rfloor>" "safeHeight b = \<lfloor>safeH\<rfloor>"
    by (simp_all add: b_def safeW_def safeH_def noise_bounds_sel)
  show "0 \<le> safeStartX (noise_bounds ctx x y settings)" "0 \<le> safeStartY (noise_bounds ctx x y settings)"
    by (simp_all add: noise_bounds_sel)
  have "real_of_int \<lfloor>safeW\<rfloor> \<le> real (canvas_width ctx) - of_int (safeStartX b)"
    "real_of_int \<lfloor>safeH\<rfloor> \<le> real (canvas_height ctx) - of_int (safeStartY b)"
    using of_int_floor_le [of safeW] of_int_floor_le [of safeH]
    by (simp_all add: safeW_def safeH_def)
  then have "safeStartX b + \<lfloor>safeW\<rfloor> \<le> int (canvas_width ctx)"
    "safeStartY b + \<lfloor>safeH\<rfloor> \<le> int (canvas_height ctx)"
    by linarith+
  then show "safeEndX (noise_bounds ctx x y settings) \<le> int (canvas_width ctx)"
    "safeEndY (noise_bounds ctx x y settings) \<le> int (canvas_height ctx)"
    using fl by (simp_all add: b_def safeWidth_def safeHeight_def)
qed

lemma applyNoise_total:
  assumes wf: "wf_canvas ctx"
  shows "\<exists>ctx' new. applyNoise rnd ctx x y settings = Inr ctx' \<and>
           canvas_width ctx' = canvas_width ctx \<and> canvas_height ctx' = canvas_height ctx \<and>
           wf_canvas ctx' \<and> transfers ctx' = transfers ctx @ new \<and>
           list_all (transfer_inside ctx) new \<and>
           (\<forall>x' y' k. 0 \<le> x' \<and> x' < int (canvas_width ctx) \<and> 0 \<le> y' \<and> y' < int (canvas_height ctx) \<and> k < 4 \<longrightarrow>
              canvas_byte ctx' x' y' k = canvas_byte ctx x' y' k \<or>
              k < 3 \<and> in_bounds (noise_bounds ctx x y settings) x' y' \<and>
              dist_px x y x' y' \<le> radius settings \<and>
              noised rnd (intensity settings * 1.5) (canvas_byte ctx x' y' k) (canvas_byte ctx' x' y' k))"
proof -
  define b where "b = noise_bounds ctx x y settings"
  show ?thesis
  proof (cases "origin_clean ctx \<and> 0 < safeWidth b \<and> 0 < safeHeight b")
    case False
    then have "applyNoise rnd ctx x y settings = Inr ctx"
      using applyNoise_noop [of ctx x y settings rnd]
      unfolding b_def by fastforce
    with wf show ?thesis
      by (intro exI [of _ ctx] exI [of _ "[]"]) simp
  next
    case True
    then have pos: "0 < safeWidth (noise_bounds ctx x y settings)"
      "0 < safeHeight (noise_bounds ctx x y settings)" and clean: "origin_clean ctx"
      by (simp_all add: b_def)
    note clip = noise_bounds_clip [OF pos, folded b_def]
    from applyNoise_effect [OF wf clean pos, of rnd, folded b_def]
    obtain ctx' where res: "applyNoise rnd ctx x y settings = Inr ctx'"
      and dims: "canvas_width ctx' = canvas_width ctx" "canvas_height ctx' = canvas_height ctx"
        "wf_canvas ctx'"
      and tr: "transfers ctx' = transfers ctx @
             [ReadRegion (safeStartX b) (safeStartY b) (nat (safeWidth b)) (nat (safeHeight b)),
              WriteRegion (safeStartX b) (safeStartY b) (nat (safeWidth b)) (nat (safeHeight b))]"
      and bytes: "\<forall>x' y' k. 0 \<le> x' \<and> x' < int (canvas_width ctx) \<and> 0 \<le> y' \<and> y' < int (canvas_height ctx) \<and> k < 4 \<longrightarrow>
              (if in_bounds b x' y' \<and> k < 3 \<and> dist_px x y x' y' \<le> radius settings
               then noised rnd (intensity settings * 1.5) (canvas_byte ctx x' y' k) (canvas_byte ctx' x' y' k)
               else canvas_byte ctx' x' y' k = canvas_byte ctx x' y' k)"
      by blast
    have inside: "list_all (transfer_inside ctx)
             [ReadRegion (safeStartX b) (safeStartY b) (nat (safeWidth b)) (nat (safeHeight b)),
              WriteRegion (safeStartX b) (safeStartY b) (nat (safeWidth b)) (nat (safeHeight b))]"
      using True clip by (simp add: transfer_inside_def safeWidth_def safeHeight_def)
    have frame: "canvas_byte ctx' x' y' k = canvas_byte ctx x' y' k \<or>
              k < 3 \<and> in_bounds b x' y' \<and> dist_px x y x' y' \<le> radius settings \<and>
              noised rnd (intensity settings * 1.5) (canvas_byte ctx x' y' k) (canvas_byte ctx' x' y' k)"
      if ins: "0 \<le> x' \<and> x' < int (canvas_width ctx) \<and> 0 \<le> y' \<and> y' < int (canvas_height ctx) \<and> k < 4"
      for x' y' k
    proof (cases "in_bounds b x' y' \<and> k < 3 \<and> dist_px x y x' y' \<le> radius settings")
      case hit: True
      with bytes ins
      have "noised rnd (intensity settings * 1.5) (canvas_byte ctx x' y' k) (canvas_byte ctx' x' y' k)"
        by (metis (no_types, lifting))
      with hit show ?thesis by blast
    next
      case miss: False
      with bytes ins have "canvas_byte ctx' x' y' k = canvas_byte ctx x' y' k"
        by (metis (no_types, lifting))
      then show ?thesis by blast
    qed
    from res dims tr inside frame show ?thesis
      unfolding b_def [symmetric] by blast
  qed
qed

lemma flat_canvas_wf: "w < 2 ^ 31 \<Longrightarrow> h < 2 ^ 31 \<Longrightarrow> wf_canvas (flat_canvas w h v)"
  by (simp add: wf_canvas_def flat_canvas_def)

lemma flat_canvas_sel:
  "canvas_width (flat_canvas w h v) = w" "canvas_height (flat_canvas w h v) = h"
  "origin_clean (flat_canvas w h v)" "transfers (flat_canvas w h v) = []"
  by (simp_all add: flat_canvas_def)

lemma dist_px_gt_iff:
  "r < dist_px centerX centerY x y \<longleftrightarrow>
     r < 0 \<or> r\<^sup>2 < (of_int x - centerX)\<^sup>2 + (of_int y - centerY)\<^sup>2"
  using dist_px_le_iff [of centerX centerY x y r] by (auto simp: not_le [symmetric])

text \<open>C4. On every well-formed canvas, for every brush and every sequence of draws, both
  effects return a canvas of the same size in which every pixel whose distance from the
  brush centre (taken at the pixel's integer coordinates) is strictly greater than
  \<open>radius\<close> has its four bytes unchanged.\<close>

theorem circular_containment:
  assumes "wf_canvas ctx"
  shows "(\<exists>ctx'. applyPixelate ctx centerX centerY settings = Inr ctx' \<and>
            canvas_width ctx' = canvas_width ctx \<and> canvas_height ctx' = canvas_height ctx \<and>
            (\<forall>x y k. 0 \<le> x \<and> x < int (canvas_width ctx) \<and> 0 \<le> y \<and> y < int (canvas_height ctx) \<and>
                     k < 4 \<and> radius settings < dist_px centerX centerY x y \<longrightarrow>
               canvas_byte ctx' x y k = canvas_byte ctx x y k)) \<and>
         (\<exists>ctx'. applyNoise rnd ctx centerX centerY settings = Inr ctx' \<and>
            canvas_width ctx' = canvas_width ctx \<and> canvas_height ctx' = canvas_height ctx \<and>
            (\<forall>x y k. 0 \<le> x \<and> x < int (canvas_width ctx) \<and> 0 \<le> y \<and> y < int (canvas_height ctx) \<and>
                     k < 4 \<and> radius settings < dist_px centerX centerY x y \<longrightarrow>
               canvas_byte ctx' x y k = canvas_byte ctx x y k))"
proof
  from applyPixelate_total [OF assms, of centerX centerY settings]
  obtain ctx' where res: "applyPixelate ctx centerX centerY settings = Inr ctx'"
    "canvas_width ctx' = canvas_width ctx" "canvas_height ctx' = canvas_height ctx"
    and frame: "\<And>x y k. 0 \<le> x \<and> x < int (canvas_width ctx) \<and> 0 \<le> y \<and> y < int (canvas_height ctx) \<and> k < 4 \<Longrightarrow>
              canvas_byte ctx' x y k = canvas_byte ctx x y k \<or>
              k < 3 \<and> in_bounds (pixelate_bounds ctx centerX centerY settings) x y \<and>
              dist_px centerX centerY x y \<le> radius settings"
    by blast
  have "canvas_byte ctx' x y k = canvas_byte ctx x y k"
    if "0 \<le> x \<and> x < int (canvas_width ctx) \<and> 0 \<le> y \<and> y < int (canvas_height ctx) \<and>
        k < 4 \<and> radius settings < dist_px centerX centerY x y" for x y k
    using frame [of x y k] that by auto
  with res show "\<exists>ctx'. applyPixelate ctx centerX centerY settings = Inr ctx' \<and>
            canvas_width ctx' = canvas_width ctx \<and> canvas_height ctx' = canvas_height ctx \<and>
            (\<forall>x y k. 0 \<le> x \<and> x < int (canvas_width ctx) \<and> 0 \<le> y \<and> y < int (canvas_height ctx) \<and>
                     k < 4 \<and> radius settings < dist_px centerX centerY x y \<longrightarrow>
               canvas_byte ctx' x y k = canvas_byte ctx x y k)"
    by blast
next
  from applyNoise_total [OF assms, of rnd centerX centerY settings]
  obtain ctx' where res: "applyNoise rnd ctx centerX centerY settings = Inr ctx'"
    "canvas_width ctx' = canvas_width ctx" "canvas_height ctx' = canvas_height ctx"
    and frame: "\<And>x y k. 0 \<le> x \<and> x < int (canvas_width ctx) \<and> 0 \<le> y \<and> y < int (canvas_height ctx) \<and> k < 4 \<Longrightarrow>
              canvas_byte ctx' x y k = canvas_byte ctx x y k \<or>
              k < 3 \<and> in_bounds (noise_bounds ctx centerX centerY settings) x y \<and>
              dist_px centerX centerY x y \<le> radius settings \<and>
              noised rnd (intensity settings * 1.5) (canvas_byte ctx x y k) (canvas_byte ctx' x y k)"
    by blast
  have "canvas_byte ctx' x y k = canvas_byte ctx x y k"
    if "0 \<le> x \<and> x < int (canvas_width ctx) \<and> 0 \<le> y \<and> y < int (canvas_height ctx) \<and>
        k < 4 \<and> radius settings < dist_px centerX centerY x y" for x y k
    using frame [of x y k] that by auto
  with res show "\<exists>ctx'. applyNoise rnd ctx centerX centerY settings = Inr ctx' \<and>
            canvas_width ctx' = canvas_width ctx \<and> canvas_height ctx' = canvas_height ctx \<and>
            (\<forall>x y k. 0 \<le> x \<and> x < int (canvas_width ctx) \<and> 0 \<le> y \<and> y < int (canvas_height ctx) \<and>
                     k < 4 \<and> radius settings < dist_px centerX centerY x y \<longrightarrow>
               canvas_byte ctx' x y k = canvas_byte ctx x y k)"
    by blast
qed

theorem circular_containment_witness:
  "wf_canvas (flat_canvas 10 10 128) \<and>
   (\<exists>ctx'. applyPixelate (flat_canvas 10 10 128) 5 5 \<lparr>radius = 4, intensity = 4\<rparr> = Inr ctx' \<and>
      map (canvas_byte ctx' 1 1) [0, 1, 2, 3] = map (canvas_byte (flat_canvas 10 10 128) 1 1) [0, 1, 2, 3]) \<and>
   (\<exists>ctx'. applyNoise (\<lambda>n. 9 / 10) (flat_canvas 10 10 128) 5 5 \<lparr>radius = 4, intensity = 4\<rparr> = Inr ctx' \<and>
      map (canvas_byte ctx' 1 1) [0, 1, 2, 3] = map (canvas_byte (flat_canvas 10 10 128) 1 1) [0, 1, 2, 3])"
proof -
  let ?c = "flat_canvas 10 10 128" and ?st = "\<lparr>radius = 4, intensity = 4\<rparr>"
  have wf: "wf_canvas ?c" by (simp add: flat_canvas_wf)
  have far: "radius ?st < dist_px 5 5 1 1" by (simp add: dist_px_gt_iff)
  from circular_containment [OF wf, of 5 5 ?st "\<lambda>n. 9 / 10"]
  obtain c1 c2 where r1: "applyPixelate ?c 5 5 ?st = Inr c1"
    and f1: "\<And>x y k. 0 \<le> x \<and> x < 10 \<and> 0 \<le> y \<and> y < 10 \<and> k < 4 \<and> radius ?st < dist_px 5 5 x y \<Longrightarrow>
               canvas_byte c1 x y k = canvas_byte ?c x y k"
    and r2: "applyNoise (\<lambda>n. 9 / 10) ?c 5 5 ?st = Inr c2"
    and f2: "\<And>x y k. 0 \<le> x \<and> x < 10 \<and> 0 \<le> y \<and> y < 10 \<and> k < 4 \<and> radius ?st < dist_px 5 5 x y \<Longrightarrow>
               canvas_byte c2 x y k = canvas_byte ?c x y k"
    unfolding flat_canvas_sel by auto
  have "map (canvas_byte c1 1 1) [0, 1, 2, 3] = map (canvas_byte ?c 1 1) [0, 1, 2, 3]"
    using f1 [of 1 1 0] f1 [of 1 1 1] f1 [of 1 1 2] f1 [of 1 1 3] far by simp
  moreover have "map (canvas_byte c2 1 1) [0, 1, 2, 3] = map (canvas_byte ?c 1 1) [0, 1, 2, 3]"
    using f2 [of 1 1 0] f2 [of 1 1 1] f2 [of 1 1 2] f2 [of 1 1 3] far by simp
  ultimately show ?thesis using wf r1 r2 by blast
qed

text \<open>C5. On every well-formed canvas, wherever the brush lies, both effects complete with
  a result (no index outside the array that was read, no exception), keep the size of the
  canvas and of its pixel array, read and write only rectangles inside the canvas, and
  change no byte of a pixel farther than \<open>radius\<close> from the brush centre.\<close>

theorem clipping_safety:
  assumes "wf_canvas ctx"
  shows "(\<exists>ctx' new. applyPixelate ctx centerX centerY settings = Inr ctx' \<and>
            canvas_width ctx' = canvas_width ctx \<and> canvas_height ctx' = canvas_height ctx \<and>
            length (pixels ctx') = length (pixels ctx) \<and>
            transfers ctx' = transfers ctx @ new \<and> list_all (transfer_inside ctx) new \<and>
            (\<forall>x y k. 0 \<le> x \<and> x < int (canvas_width ctx) \<and> 0 \<le> y \<and> y < int (canvas_height ctx) \<and>
                     k < 4 \<and> canvas_byte ctx' x y k \<noteq> canvas_byte ctx x y k \<longrightarrow>
               dist_px centerX centerY x y \<le> radius settings)) \<and>
         (\<exists>ctx' new. applyNoise rnd ctx centerX centerY settings = Inr ctx' \<and>
            canvas_width ctx' = canvas_width ctx \<and> canvas_height ctx' = canvas_height ctx \<and>
            length (pixels ctx') = length (pixels ctx) \<and>
            transfers ctx' = transfers ctx @ new \<and> list_all (transfer_inside ctx) new \<and>
            (\<forall>x y k. 0 \<le> x \<and> x < int (canvas_width ctx) \<and> 0 \<le> y \<and> y < int (canvas_height ctx) \<and>
                     k < 4 \<and> canvas_byte ctx' x y k \<noteq> canvas_byte ctx x y k \<longrightarrow>
               dist_px centerX centerY x y \<le> radius settings))"
proof
  from applyPixelate_total [OF assms, of centerX centerY settings]
  obtain ctx' new where res: "applyPixelate ctx centerX centerY settings = Inr ctx'"
    "canvas_width ctx' = canvas_width ctx" "canvas_height ctx' = canvas_height ctx"
    "transfers ctx' = transfers ctx @ new" "list_all (transfer_inside ctx) new"
    and wf': "wf_canvas ctx'"
    and frame: "\<And>x y k. 0 \<le> x \<and> x < int (canvas_width ctx) \<and> 0 \<le> y \<and> y < int (canvas_height ctx) \<and> k < 4 \<Longrightarrow>
              canvas_byte ctx' x y k = canvas_byte ctx x y k \<or>
              k < 3 \<and> in_bounds (pixelate_bounds ctx centerX centerY settings) x y \<and>
              dist_px centerX centerY x y \<le> radius settings"
    by blast
  have len: "length (pixels ctx') = length (pixels ctx)"
    using assms wf' res(2,3) by (simp add: wf_canvas_def)
  have "dist_px centerX centerY x y \<le> radius settings"
    if "0 \<le> x \<and> x < int (canvas_width ctx) \<and> 0 \<le> y \<and> y < int (canvas_height ctx) \<and>
        k < 4 \<and> canvas_byte ctx' x y k \<noteq> canvas_byte ctx x y k" for x y k
    using frame [of x y k] that by auto
  with res len show "\<exists>ctx' new. applyPixelate ctx centerX centerY settings = Inr ctx' \<and>
            canvas_width ctx' = canvas_width ctx \<and> canvas_height ctx' = canvas_height ctx \<and>
            length (pixels ctx') = length (pixels ctx) \<and>
            transfers ctx' = transfers ctx @ new \<and> list_all (transfer_inside ctx) new \<and>
            (\<forall>x y k. 0 \<le> x \<and> x < int (canvas_width ctx) \<and> 0 \<le> y \<and> y < int (canvas_height ctx) \<and>
                     k < 4 \<and> canvas_byte ctx' x y k \<noteq> canvas_byte ctx x y k \<longrightarrow>
               dist_px centerX centerY x y \<le> radius settings)"
    by blast
next
  from applyNoise_total [OF assms, of rnd centerX centerY settings]
  obtain ctx' new where res: "applyNoise rnd ctx centerX centerY settings = Inr ctx'"
    "canvas_width ctx' = canvas_width ctx" "canvas_height ctx' = canvas_height ctx"
    "transfers ctx' = transfers ctx @ new" "list_all (transfer_inside ctx) new"
    and wf': "wf_canvas ctx'"
    and frame: "\<And>x y k. 0 \<le> x \<and> x < int (canvas_width ctx) \<and> 0 \<le> y \<and> y < int (canvas_height ctx) \<and> k < 4 \<Longrightarrow>
              canvas_byte ctx' x y k = canvas_byte ctx x y k \<or>
              k < 3 \<and> in_bounds (noise_bounds ctx centerX centerY settings) x y \<and>
              dist_px centerX centerY x y \<le> radius settings \<and>
              noised rnd (intensity settings * 1.5) (canvas_byte ctx x y k) (canvas_byte ctx' x y k)"
    by blast
  have len: "length (pixels ctx') = length (pixels ctx)"
    using assms wf' res(2,3) by (simp add: wf_canvas_def)
  have "dist_px centerX centerY x y \<le> radius settings"
    if "0 \<le> x \<and> x < int (canvas_width ctx) \<and> 0 \<le> y \<and> y < int (canvas_height ctx) \<and>
        k < 4 \<and> canvas_byte ctx' x y k \<noteq> canvas_byte ctx x y k" for x y k
    using frame [of x y k] that by auto
  with res len show "\<exists>ctx' new. applyNoise rnd ctx centerX centerY settings = Inr ctx' \<and>
            canvas_width ctx' = canvas_width ctx \<and> canvas_height ctx' = canvas_height ctx \<and>
            length (pixels ctx') = length (pixels ctx) \<and>
            transfers ctx' = transfers ctx @ new \<and> list_all (transfer_inside ctx) new \<and>
            (\<forall>x y k. 0 \<le> x \<and> x < int (canvas_width ctx) \<and> 0 \<le> y \<and> y < int (canvas_height ctx) \<and>
                     k < 4 \<and> canvas_byte ctx' x y k \<noteq> canvas_byte ctx x y k \<longrightarrow>
               dist_px centerX centerY x y \<le> radius settings)"
    by blast
qed

theorem clipping_safety_witness:
  "wf_canvas (flat_canvas 100 100 200) \<and>
   (\<exists>ctx' new. applyPixelate (flat_canvas 100 100 200) (- 5) (- 5) \<lparr>radius = 8, intensity = 15\<rparr> = Inr ctx' \<and>
      canvas_width ctx' = 100 \<and> canvas_height ctx' = 100 \<and> length (pixels ctx') = 40000 \<and>
      transfers ctx' = new \<and> list_all (transfer_inside (flat_canvas 100 100 200)) new \<and>
      canvas_byte ctx' 3 3 0 = 200) \<and>
   (\<exists>ctx' new. applyNoise (\<lambda>n. 9 / 10) (flat_canvas 100 100 200) (- 5) (- 5) \<lparr>radius = 8, intensity = 15\<rparr> = Inr ctx' \<and>
      canvas_width ctx' = 100 \<and> canvas_height ctx' = 100 \<and> length (pixels ctx') = 40000 \<and>
      transfers ctx' = new \<and> list_all (transfer_inside (flat_canvas 100 100 200)) new \<and>
      canvas_byte ctx' 3 3 0 = 200)"
proof -
  let ?c = "flat_canvas 100 100 200" and ?st = "\<lparr>radius = 8, intensity = 15\<rparr>"
  have wf: "wf_canvas ?c" by (simp add: flat_canvas_wf)
  have far: "\<not> dist_px (- 5) (- 5) 3 3 \<le> radius ?st" by (simp add: dist_px_le_iff)
  have old: "canvas_byte ?c 3 3 0 = 200" by (simp add: canvas_byte_def flat_canvas_def)
  have len: "length (pixels ?c) = 40000" by (simp add: flat_canvas_def)
  note cs = clipping_safety [OF wf, of "- 5" "- 5" ?st "\<lambda>n. 9 / 10",
      unfolded flat_canvas_sel len append_Nil]
  from cs [THEN conjunct1]
  obtain c1 n1 where r1: "applyPixelate ?c (- 5) (- 5) ?st = Inr c1"
      "canvas_width c1 = 100" "canvas_height c1 = 100" "length (pixels c1) = 40000"
      "transfers c1 = n1" "list_all (transfer_inside ?c) n1"
    and f1: "\<And>x y k. 0 \<le> x \<and> x < int 100 \<and> 0 \<le> y \<and> y < int 100 \<and> k < 4 \<and>
               canvas_byte c1 x y k \<noteq> canvas_byte ?c x y k \<Longrightarrow> dist_px (- 5) (- 5) x y \<le> radius ?st"
    by blast
  from cs [THEN conjunct2]
  obtain c2 n2 where r2: "applyNoise (\<lambda>n. 9 / 10) ?c (- 5) (- 5) ?st = Inr c2"
      "canvas_width c2 = 100" "canvas_height c2 = 100" "length (pixels c2) = 40000"
      "transfers c2 = n2" "list_all (transfer_inside ?c) n2"
    and f2: "\<And>x y k. 0 \<le> x \<and> x < int 100 \<and> 0 \<le> y \<and> y < int 100 \<and> k < 4 \<and>
               canvas_byte c2 x y k \<noteq> canvas_byte ?c x y k \<Longrightarrow> dist_px (- 5) (- 5) x y \<le> radius ?st"
    by blast
  have "canvas_byte c1 3 3 0 = 200" using f1 [of 3 3 0] far old by auto
  moreover have "canvas_byte c2 3 3 0 = 200" using f2 [of 3 3 0] far old by auto
  ultimately show ?thesis using wf r1 r2 by blast
qed

text \<open>C8. When the store refuses the read (a tainted canvas), both effects return
  normally and the context is exactly what it was: no byte changed, nothing written.\<close>

theorem read_refused_no_mutation:
  assumes "\<not> origin_clean ctx"
  shows "applyPixelate ctx centerX centerY settings = Inr ctx \<and>
         applyNoise rnd ctx x y settings = Inr ctx"
  using assms applyPixelate_refused [of ctx centerX centerY settings]
    applyNoise_noop [of ctx x y settings rnd]
  by simp

theorem read_refused_no_mutation_witness:
  "\<not> origin_clean (tainted_canvas 10 10 128) \<and>
   applyPixelate (tainted_canvas 10 10 128) 5 5 \<lparr>radius = 4, intensity = 4\<rparr> =
     Inr (tainted_canvas 10 10 128) \<and>
   applyNoise (\<lambda>n. 9 / 10) (tainted_canvas 10 10 128) 5 5 \<lparr>radius = 4, intensity = 4\<rparr> =
     Inr (tainted_canvas 10 10 128)"
proof -
  have t: "\<not> origin_clean (tainted_canvas 10 10 128)"
    by (simp add: tainted_canvas_def)
  from read_refused_no_mutation [OF t, of 5 5 "\<lparr>radius = 4, intensity = 4\<rparr>" "\<lambda>n. 9 / 10" 5 5] t
  show ?thesis by simp
qed

lemma noise_value_bounds:
  "0 \<le> noise_value v u variance" "noise_value v u variance \<le> 255"
  by (simp_all add: noise_value_def)

lemma round_half_even_bounds:
  assumes "0 \<le> v" "v \<le> 255"
  shows "0 \<le> round_half_even v" "round_half_even v \<le> 255"
proof -
  have f0: "0 \<le> \<lfloor>v\<rfloor>" using assms by simp
  have f255: "\<lfloor>v\<rfloor> \<le> 255" using assms by (simp add: floor_le_iff)
  show "0 \<le> round_half_even v" using f0 by (simp add: round_half_even_def Let_def)
  show "round_half_even v \<le> 255"
  proof (cases "\<lfloor>v\<rfloor> = 255")
    case True
    then have "255 \<le> v" using of_int_floor_le [of v] by simp
    with assms have "v = 255" by simp
    then show ?thesis by (simp add: round_half_even_def)
  next
    case False
    with f255 have "\<lfloor>v\<rfloor> + 1 \<le> 255" by linarith
    with f255 show ?thesis by (simp add: round_half_even_def Let_def)
  qed
qed

lemma uint_to_uint8_clamp:
  assumes "0 \<le> v" "v \<le> 255"
  shows "uint (to_uint8_clamp v) = round_half_even v"
proof -
  from assms have "min 255 (max 0 v) = v" by simp
  then have "to_uint8_clamp v = word_of_int (round_half_even v)"
    by (simp only: to_uint8_clamp_def)
  moreover have "round_half_even v mod 256 = round_half_even v"
    using round_half_even_bounds [OF assms] by simp
  ultimately show ?thesis by (simp add: uint_word_of_int)
qed

text \<open>C6. On every well-formed canvas, for every brush and every sequence of draws
  whatsoever (no bound on the draws is assumed), \<open>applyNoise\<close> returns, and every byte of the
  result is either the byte before the call or was written from a number
  \<open>noise_value\<close> that lies in \<open>[0, 255]\<close>: the stored byte is that number rounded, with no
  wrap-around.\<close>

theorem noise_bounded:
  assumes "wf_canvas ctx"
  shows "\<exists>ctx'. applyNoise rnd ctx x y settings = Inr ctx' \<and>
           (\<forall>x' y' k. 0 \<le> x' \<and> x' < int (canvas_width ctx) \<and> 0 \<le> y' \<and> y' < int (canvas_height ctx) \<and> k < 4 \<longrightarrow>
              canvas_byte ctx' x' y' k = canvas_byte ctx x' y' k \<or>
              (\<exists>m. 0 \<le> noise_value (canvas_byte ctx x' y' k) (rnd m) (intensity settings * 1.5) \<and>
                   noise_value (canvas_byte ctx x' y' k) (rnd m) (intensity settings * 1.5) \<le> 255 \<and>
                   uint (canvas_byte ctx' x' y' k) =
                     round_half_even
                       (noise_value (canvas_byte ctx x' y' k) (rnd m) (intensity settings * 1.5))))"
proof -
  from applyNoise_total [OF assms, of rnd x y settings]
  obtain ctx' where res: "applyNoise rnd ctx x y settings = Inr ctx'"
    and frame: "\<And>x' y' k. 0 \<le> x' \<and> x' < int (canvas_width ctx) \<and> 0 \<le> y' \<and> y' < int (canvas_height ctx) \<and> k < 4 \<Longrightarrow>
              canvas_byte ctx' x' y' k = canvas_byte ctx x' y' k \<or>
              k < 3 \<and> in_bounds (noise_bounds ctx x y settings) x' y' \<and>
              dist_px x y x' y' \<le> radius settings \<and>
              noised rnd (intensity settings * 1.5) (canvas_byte ctx x' y' k) (canvas_byte ctx' x' y' k)"
    by blast
  have "canvas_byte ctx' x' y' k = canvas_byte ctx x' y' k \<or>
              (\<exists>m. 0 \<le> noise_value (canvas_byte ctx x' y' k) (rnd m) (intensity settings * 1.5) \<and>
                   noise_value (canvas_byte ctx x' y' k) (rnd m) (intensity settings * 1.5) \<le> 255 \<and>
                   uint (canvas_byte ctx' x' y' k) =
                     round_half_even
                       (noise_value (canvas_byte ctx x' y' k) (rnd m) (intensity settings * 1.5)))"
    if ins: "0 \<le> x' \<and> x' < int (canvas_width ctx) \<and> 0 \<le> y' \<and> y' < int (canvas_height ctx) \<and> k < 4"
    for x' y' k
  proof (cases "canvas_byte ctx' x' y' k = canvas_byte ctx x' y' k")
    case True
    then show ?thesis by blast
  next
    case False
    with frame [OF ins]
    have "noised rnd (intensity settings * 1.5) (canvas_byte ctx x' y' k) (canvas_byte ctx' x' y' k)"
      by blast
    then obtain m where m: "canvas_byte ctx' x' y' k =
        to_uint8_clamp (noise_value (canvas_byte ctx x' y' k) (rnd m) (intensity settings * 1.5))"
      unfolding noised_def by blast
    note nb = noise_value_bounds [of "canvas_byte ctx x' y' k" "rnd m" "intensity settings * 1.5"]
    have "uint (canvas_byte ctx' x' y' k) =
        round_half_even (noise_value (canvas_byte ctx x' y' k) (rnd m) (intensity settings * 1.5))"
      unfolding m by (rule uint_to_uint8_clamp [OF nb])
    with nb show ?thesis by blast
  qed
  with res show ?thesis by blast
qed

lemma byte_of_uint: "uint (v :: byte) = 255 \<Longrightarrow> v = 255" "uint (v :: byte) = 0 \<Longrightarrow> v = 0"
proof -
  assume "uint v = 255"
  then have "word_of_int (uint v) = (word_of_int 255 :: byte)" by simp
  then show "v = 255" by simp
next
  assume "uint v = 0"
  then have "word_of_int (uint v) = (word_of_int 0 :: byte)" by simp
  then show "v = 0" by simp
qed

theorem noise_bounded_witness:
  "wf_canvas (flat_canvas 20 20 255) \<and> wf_canvas (flat_canvas 20 20 0) \<and>
   (\<exists>ctx'. applyNoise (\<lambda>n. 1) (flat_canvas 20 20 255) 10 10 \<lparr>radius = 5, intensity = 100\<rparr> = Inr ctx' \<and>
      canvas_byte ctx' 10 10 0 = 255) \<and>
   (\<exists>ctx'. applyNoise (\<lambda>n. 0) (flat_canvas 20 20 0) 10 10 \<lparr>radius = 5, intensity = 100\<rparr> = Inr ctx' \<and>
      canvas_byte ctx' 10 10 0 = 0)"
proof -
  let ?hi = "flat_canvas 20 20 255" and ?lo = "flat_canvas 20 20 0"
  let ?st = "\<lparr>radius = 5, intensity = 100\<rparr>"
  have wf: "wf_canvas ?hi" "wf_canvas ?lo" by (simp_all add: flat_canvas_wf)
  have old: "canvas_byte ?hi 10 10 0 = 255" "canvas_byte ?lo 10 10 0 = 0"
    by (simp_all add: canvas_byte_def flat_canvas_def)
  have top: "round_half_even (noise_value 255 1 (intensity ?st * 1.5)) = 255"
    by (simp add: noise_value_def round_half_even_def)
  have bot: "round_half_even (noise_value 0 0 (intensity ?st * 1.5)) = 0"
    by (simp add: noise_value_def round_half_even_def)
  from noise_bounded [OF wf(1), of "\<lambda>n. 1" 10 10 ?st, unfolded flat_canvas_sel]
  obtain c1 where r1: "applyNoise (\<lambda>n. 1) ?hi 10 10 ?st = Inr c1"
    and f1: "\<And>x' y' k. 0 \<le> x' \<and> x' < int 20 \<and> 0 \<le> y' \<and> y' < int 20 \<and> k < 4 \<Longrightarrow>
              canvas_byte c1 x' y' k = canvas_byte ?hi x' y' k \<or>
              (\<exists>m :: nat. 0 \<le> noise_value (canvas_byte ?hi x' y' k) 1 (intensity ?st * 1.5) \<and>
                   noise_value (canvas_byte ?hi x' y' k) 1 (intensity ?st * 1.5) \<le> 255 \<and>
                   uint (canvas_byte c1 x' y' k) =
                     round_half_even (noise_value (canvas_byte ?hi x' y' k) 1 (intensity ?st * 1.5)))"
    by blast
  from noise_bounded [OF wf(2), of "\<lambda>n. 0" 10 10 ?st, unfolded flat_canvas_sel]
  obtain c2 where r2: "applyNoise (\<lambda>n. 0) ?lo 10 10 ?st = Inr c2"
    and f2: "\<And>x' y' k. 0 \<le> x' \<and> x' < int 20 \<and> 0 \<le> y' \<and> y' < int 20 \<and> k < 4 \<Longrightarrow>
              canvas_byte c2 x' y' k = canvas_byte ?lo x' y' k \<or>
              (\<exists>m :: nat. 0 \<le> noise_value (canvas_byte ?lo x' y' k) 0 (intensity ?st * 1.5) \<and>
                   noise_value (canvas_byte ?lo x' y' k) 0 (intensity ?st * 1.5) \<le> 255 \<and>
                   uint (canvas_byte c2 x' y' k) =
                     round_half_even (noise_value (canvas_byte ?lo x' y' k) 0 (intensity ?st * 1.5)))"
    by blast
  have "canvas_byte c1 10 10 0 = 255"
    using f1 [of 10 10 0] unfolding old top by (auto dest: byte_of_uint(1))
  moreover have "canvas_byte c2 10 10 0 = 0"
    using f2 [of 10 10 0] unfolding old bot by (auto dest: byte_of_uint(2))
  ultimately show ?thesis using wf r1 r2 by blast
qed

text \<open>C10. In both effects the test that decides whether a pixel of the processed
  rectangle is written is \<open>sqrt ((x - centerX)\<^sup>2 + (y - centerY)\<^sup>2) \<le> radius\<close> at the
  integer pixel indices \<open>x\<close>, \<open>y\<close>: on a readable well-formed canvas, each of R, G, B of a
  pixel of the rectangle that passes the test holds the written value (the cell mean for
  \<open>applyPixelate\<close>, a noised byte for \<open>applyNoise\<close>), and of a pixel that fails it the value
  before the call.\<close>

theorem in_circle_at_integer_coordinates:
  assumes "wf_canvas ctx" and "origin_clean ctx"
  shows "(0 < safeWidth (pixelate_bounds ctx centerX centerY settings) \<and>
          0 < safeHeight (pixelate_bounds ctx centerX centerY settings) \<longrightarrow>
          (\<exists>ctx'. applyPixelate ctx centerX centerY settings = Inr ctx' \<and>
             (\<forall>x y k. in_bounds (pixelate_bounds ctx centerX centerY settings) x y \<and> k < 3 \<longrightarrow>
                (if sqrt ((of_int x - centerX)\<^sup>2 + (of_int y - centerY)\<^sup>2) \<le> radius settings
                 then canvas_byte ctx' x y k =
                        word_of_int
                          (cell_mean (\<lambda>x y. canvas_byte ctx x y k)
                             (cell_xs (pixelate_bounds ctx centerX centerY settings) (blockSize settings) x)
                             (cell_ys (pixelate_bounds ctx centerX centerY settings) (blockSize settings) y))
                 else canvas_byte ctx' x y k = canvas_byte ctx x y k)))) \<and>
         (0 < safeWidth (noise_bounds ctx centerX centerY settings) \<and>
          0 < safeHeight (noise_bounds ctx centerX centerY settings) \<longrightarrow>
          (\<exists>ctx'. applyNoise rnd ctx centerX centerY settings = Inr ctx' \<and>
             (\<forall>x y k. in_bounds (noise_bounds ctx centerX centerY settings) x y \<and> k < 3 \<longrightarrow>
                (if sqrt ((of_int x - centerX)\<^sup>2 + (of_int y - centerY)\<^sup>2) \<le> radius settings
                 then noised rnd (intensity settings * 1.5) (canvas_byte ctx x y k) (canvas_byte ctx' x y k)
                 else canvas_byte ctx' x y k = canvas_byte ctx x y k))))"
proof (intro conjI impI)
  define b where "b = pixelate_bounds ctx centerX centerY settings"
  assume "0 < safeWidth (pixelate_bounds ctx centerX centerY settings) \<and>
          0 < safeHeight (pixelate_bounds ctx centerX centerY settings)"
  then have pos: "0 < safeWidth (pixelate_bounds ctx centerX centerY settings)"
    "0 < safeHeight (pixelate_bounds ctx centerX centerY settings)" by simp_all
  note clip = pixelate_bounds_clip [of ctx centerX centerY settings, folded b_def]
  from applyPixelate_effect [OF assms pos, folded b_def]
  obtain ctx' where res: "applyPixelate ctx centerX centerY settings = Inr ctx'"
    and bytes: "\<And>x y k. 0 \<le> x \<and> x < int (canvas_width ctx) \<and> 0 \<le> y \<and> y < int (canvas_height ctx) \<and> k < 4 \<Longrightarrow>
              canvas_byte ctx' x y k =
                (if in_bounds b x y then mosaic_byte b centerX centerY settings (canvas_byte ctx) x y k
                 else canvas_byte ctx x y k)"
    by blast
  have "if sqrt ((of_int x - centerX)\<^sup>2 + (of_int y - centerY)\<^sup>2) \<le> radius settings
        then canvas_byte ctx' x y k =
               word_of_int
                 (cell_mean (\<lambda>x y. canvas_byte ctx x y k)
                    (cell_xs b (blockSize settings) x) (cell_ys b (blockSize settings) y))
        else canvas_byte ctx' x y k = canvas_byte ctx x y k"
    if xy: "in_bounds b x y \<and> k < 3" for x y k
  proof -
    from xy clip have "0 \<le> x \<and> x < int (canvas_width ctx) \<and> 0 \<le> y \<and> y < int (canvas_height ctx) \<and> k < 4"
      by (simp add: in_bounds_def)
    from bytes [OF this] xy show ?thesis
      by (simp add: mosaic_byte_def dist_px_def)
  qed
  with res show "\<exists>ctx'. applyPixelate ctx centerX centerY settings = Inr ctx' \<and>
             (\<forall>x y k. in_bounds (pixelate_bounds ctx centerX centerY settings) x y \<and> k < 3 \<longrightarrow>
                (if sqrt ((of_int x - centerX)\<^sup>2 + (of_int y - centerY)\<^sup>2) \<le> radius settings
                 then canvas_byte ctx' x y k =
                        word_of_int
                          (cell_mean (\<lambda>x y. canvas_byte ctx x y k)
                             (cell_xs (pixelate_bounds ctx centerX centerY settings) (blockSize settings) x)
                             (cell_ys (pixelate_bounds ctx centerX centerY settings) (blockSize settings) y))
                 else canvas_byte ctx' x y k = canvas_byte ctx x y k))"
    unfolding b_def [symmetric] by blast
next
  define b where "b = noise_bounds ctx centerX centerY settings"
  assume "0 < safeWidth (noise_bounds ctx centerX centerY settings) \<and>
          0 < safeHeight (noise_bounds ctx centerX centerY settings)"
  then have pos: "0 < safeWidth (noise_bounds ctx centerX centerY settings)"
    "0 < safeHeight (noise_bounds ctx centerX centerY settings)" by simp_all
  note clip = noise_bounds_clip [OF pos, folded b_def]
  from applyNoise_effect [OF assms pos, of rnd, folded b_def]
  obtain ctx' where res: "applyNoise rnd ctx centerX centerY settings = Inr ctx'"
    and bytes: "\<And>x y k. 0 \<le> x \<and> x < int (canvas_width ctx) \<and> 0 \<le> y \<and> y < int (canvas_height ctx) \<and> k < 4 \<Longrightarrow>
              (if in_bounds b x y \<and> k < 3 \<and> dist_px centerX centerY x y \<le> radius settings
               then noised rnd (intensity settings * 1.5) (canvas_byte ctx x y k) (canvas_byte ctx' x y k)
               else canvas_byte ctx' x y k = canvas_byte ctx x y k)"
    by blast
  have "if sqrt ((of_int x - centerX)\<^sup>2 + (of_int y - centerY)\<^sup>2) \<le> radius settings
        then noised rnd (intensity settings * 1.5) (canvas_byte ctx x y k) (canvas_byte ctx' x y k)
        else canvas_byte ctx' x y k = canvas_byte ctx x y k"
    if xy: "in_bounds b x y \<and> k < 3" for x y k
  proof -
    from xy clip have "0 \<le> x \<and> x < int (canvas_width ctx) \<and> 0 \<le> y \<and> y < int (canvas_height ctx) \<and> k < 4"
      by (simp add: in_bounds_def)
    from bytes [OF this] xy show ?thesis
      unfolding dist_px_def by (simp only: simp_thms split: if_splits)
  qed
  with res show "\<exists>ctx'. applyNoise rnd ctx centerX centerY settings = Inr ctx' \<and>
             (\<forall>x y k. in_bounds (noise_bounds ctx centerX centerY settings) x y \<and> k < 3 \<longrightarrow>
                (if sqrt ((of_int x - centerX)\<^sup>2 + (of_int y - centerY)\<^sup>2) \<le> radius settings
                 then noised rnd (intensity settings * 1.5) (canvas_byte ctx x y k) (canvas_byte ctx' x y k)
                 else canvas_byte ctx' x y k = canvas_byte ctx x y k))"
    unfolding b_def [symmetric] by blast
qed


lemma quadrant_sel:
  "canvas_width quadrant_canvas = 4" "canvas_height quadrant_canvas = 4"
  "origin_clean quadrant_canvas"
  by (simp_all add: quadrant_canvas_def)

lemma quadrant_bytes:
  "canvas_byte quadrant_canvas 3 2 0 = 130" "canvas_byte quadrant_canvas 1 1 0 = 10"
  "canvas_byte quadrant_canvas 1 2 0 = 90"
  by (simp_all add: canvas_byte_def quadrant_pixels quadrant_sel)

theorem in_circle_at_integer_coordinates_witness:
  "wf_canvas quadrant_canvas \<and> origin_clean quadrant_canvas \<and>
   (\<exists>ctx'. applyPixelate quadrant_canvas 2 2 \<lparr>radius = 1, intensity = 4\<rparr> = Inr ctx' \<and>
      canvas_byte quadrant_canvas 3 2 0 = 130 \<and> canvas_byte ctx' 3 2 0 = 70 \<and>
      canvas_byte ctx' 1 1 0 = 10) \<and>
   (\<exists>ctx'. applyNoise (\<lambda>n. 9 / 10) quadrant_canvas 2 2 \<lparr>radius = 1, intensity = 4\<rparr> = Inr ctx' \<and>
      canvas_byte quadrant_canvas 1 2 0 = 90 \<and> canvas_byte ctx' 1 2 0 = 92 \<and>
      canvas_byte ctx' 1 1 0 = 10) \<and>
   \<not> sqrt ((3 + 1 / 2 - 2)\<^sup>2 + (2 + 1 / 2 - 2)\<^sup>2) \<le> (1 :: real) \<and>
   sqrt ((1 + 1 / 2 - 2)\<^sup>2 + (1 + 1 / 2 - 2)\<^sup>2) \<le> (1 :: real)"
proof -
  let ?st = "\<lparr>radius = 1, intensity = 4\<rparr>"
  let ?pb = "pixelate_bounds quadrant_canvas 2 2 ?st"
  let ?nb = "noise_bounds quadrant_canvas 2 2 ?st"
  have pb: "?pb = \<lparr>safeStartX = 0, safeStartY = 0, safeEndX = 4, safeEndY = 4\<rparr>"
    by (simp add: pixelate_bounds_def floor_div_eq blockSize_def quadrant_sel)
  have nb: "?nb = \<lparr>safeStartX = 1, safeStartY = 1, safeEndX = 3, safeEndY = 3\<rparr>"
    by (simp add: noise_bounds_def quadrant_sel)
  have ppos: "0 < safeWidth ?pb \<and> 0 < safeHeight ?pb"
    by (simp add: pb safeWidth_def safeHeight_def)
  have npos: "0 < safeWidth ?nb \<and> 0 < safeHeight ?nb"
    by (simp add: nb safeWidth_def safeHeight_def)
  note inst = in_circle_at_integer_coordinates [OF quadrant_wf quadrant_sel(3),
      of 2 2 ?st "\<lambda>n. 9 / 10"]
  from inst [THEN conjunct1, THEN mp, OF ppos]
  obtain c1 where r1: "applyPixelate quadrant_canvas 2 2 ?st = Inr c1"
    and f1: "\<And>x y k. in_bounds ?pb x y \<and> k < 3 \<Longrightarrow>
                (if sqrt ((of_int x - 2)\<^sup>2 + (of_int y - 2)\<^sup>2) \<le> radius ?st
                 then canvas_byte c1 x y k =
                        word_of_int
                          (cell_mean (\<lambda>x y. canvas_byte quadrant_canvas x y k)
                             (cell_xs ?pb (blockSize ?st) x) (cell_ys ?pb (blockSize ?st) y))
                 else canvas_byte c1 x y k = canvas_byte quadrant_canvas x y k)"
    by blast
  from inst [THEN conjunct2, THEN mp, OF npos]
  obtain c2 where r2: "applyNoise (\<lambda>n. 9 / 10) quadrant_canvas 2 2 ?st = Inr c2"
    and f2: "\<And>x y k. in_bounds ?nb x y \<and> k < 3 \<Longrightarrow>
                (if sqrt ((of_int x - 2)\<^sup>2 + (of_int y - 2)\<^sup>2) \<le> radius ?st
                 then noised (\<lambda>n. 9 / 10) (intensity ?st * 1.5)
                        (canvas_byte quadrant_canvas x y k) (canvas_byte c2 x y k)
                 else canvas_byte c2 x y k = canvas_byte quadrant_canvas x y k)"
    by blast
  have cells: "cell_xs ?pb (blockSize ?st) 3 = [0..3]" "cell_ys ?pb (blockSize ?st) 2 = [0..3]"
    by (simp_all add: cell_xs_def cell_ys_def pb blockSize_def)
  have p32: "canvas_byte c1 3 2 0 = 70"
    using f1 [of 3 2 0] by (simp add: pb in_bounds_def cells [unfolded pb] quadrant_means)
  have far: "\<not> sqrt 2 \<le> (1 :: real)"
    using real_sqrt_le_iff [of 2 1] by simp
  have p11: "canvas_byte c1 1 1 0 = 10"
    using f1 [of 1 1 0] far by (simp add: pb in_bounds_def quadrant_bytes)
  have n11: "canvas_byte c2 1 1 0 = 10"
    using f2 [of 1 1 0] far by (simp add: nb in_bounds_def quadrant_bytes)
  have "noised (\<lambda>n. 9 / 10) (intensity ?st * 1.5) 90 (canvas_byte c2 1 2 0)"
    using f2 [of 1 2 0] by (simp add: nb in_bounds_def quadrant_bytes)
  then have n12: "canvas_byte c2 1 2 0 = 92"
    by (simp add: noised_def noise_value_def to_uint8_clamp_def round_half_even_def)
  have ce1: "\<not> sqrt ((3 + 1 / 2 - 2)\<^sup>2 + (2 + 1 / 2 - 2)\<^sup>2) \<le> (1 :: real)"
    using real_sqrt_le_iff [of "(3 + 1 / 2 - 2)\<^sup>2 + (2 + 1 / 2 - 2)\<^sup>2" 1]
    by (simp add: power2_eq_square)
  have ce2: "sqrt ((1 + 1 / 2 - 2)\<^sup>2 + (1 + 1 / 2 - 2)\<^sup>2) \<le> (1 :: real)"
    using real_sqrt_le_iff [of "(1 + 1 / 2 - 2)\<^sup>2 + (1 + 1 / 2 - 2)\<^sup>2" 1]
    by (simp add: power2_eq_square)
  from quadrant_wf quadrant_sel(3) r1 quadrant_bytes(1) p32 p11 r2 quadrant_bytes(3) n12 n11 ce1 ce2
  show ?thesis by blast
qed

lemma pixelate_bounds_aligned:
  "blockSize settings dvd safeStartX (pixelate_bounds ctx centerX centerY settings)"
  "blockSize settings dvd safeStartY (pixelate_bounds ctx centerX centerY settings)"
  "\<exists>e. blockSize settings dvd e \<and>
       safeEndX (pixelate_bounds ctx centerX centerY settings) = min (int (canvas_width ctx)) e"
  "\<exists>e. blockSize settings dvd e \<and>
       safeEndY (pixelate_bounds ctx centerX centerY settings) = min (int (canvas_height ctx)) e"
proof -
  have m: "bs dvd max 0 (k * bs)" for bs k :: int
    by (cases "0 \<le> k * bs") (simp_all add: max_def)
  show "blockSize settings dvd safeStartX (pixelate_bounds ctx centerX centerY settings)"
    "blockSize settings dvd safeStartY (pixelate_bounds ctx centerX centerY settings)"
    by (simp_all add: pixelate_bounds_def Let_def m)
  show "\<exists>e. blockSize settings dvd e \<and>
       safeEndX (pixelate_bounds ctx centerX centerY settings) = min (int (canvas_width ctx)) e"
    by (rule exI [of _ "floor_div (\<lceil>centerX + radius settings\<rceil> + blockSize settings - 1)
           (blockSize settings) * blockSize settings"])
       (simp add: pixelate_bounds_def Let_def)
  show "\<exists>e. blockSize settings dvd e \<and>
       safeEndY (pixelate_bounds ctx centerX centerY settings) = min (int (canvas_height ctx)) e"
    by (rule exI [of _ "floor_div (\<lceil>centerY + radius settings\<rceil> + blockSize settings - 1)
           (blockSize settings) * blockSize settings"])
       (simp add: pixelate_bounds_def Let_def)
qed

lemma multiple_below:
  fixes bs s x :: int
  assumes "0 < bs" "bs dvd s" "s \<le> x"
  shows "s \<le> x div bs * bs"
proof -
  from assms(2) obtain m where m: "s = bs * m" ..
  have "s div bs \<le> x div bs" using assms by (intro zdiv_mono1) simp_all
  moreover have "s div bs = m" using m assms(1) by simp
  ultimately have "m * bs \<le> x div bs * bs" using assms(1) by simp
  with m show ?thesis by (simp add: mult.commute)
qed

lemma multiple_above:
  fixes bs e x :: int
  assumes "0 < bs" "bs dvd e" "x < e"
  shows "x div bs * bs + bs \<le> e"
proof -
  from assms(2) obtain m where m: "e = bs * m" ..
  have "x div bs < m"
  proof (rule ccontr)
    assume "\<not> x div bs < m"
    then have "m \<le> x div bs" by simp
    then have "m * bs \<le> x div bs * bs" using assms(1) by simp
    also have "\<dots> \<le> x" using cell_of_point(1) [OF assms(1)] .
    finally show False using assms(3) m by (simp add: mult.commute)
  qed
  then have "x div bs + 1 \<le> m" by simp
  then have "(x div bs + 1) * bs \<le> m * bs" using assms(1) by (intro mult_right_mono) simp_all
  with m show ?thesis by (simp add: algebra_simps)
qed

lemma noised_const:
  "noised (\<lambda>n. u) variance v0 v \<longleftrightarrow> v = to_uint8_clamp (noise_value v0 u variance)"
  by (simp add: noised_def)

lemma flat_canvas_byte:
  "0 \<le> x \<Longrightarrow> x < int w \<Longrightarrow> 0 \<le> y \<Longrightarrow> y < int h \<Longrightarrow> k < 4 \<Longrightarrow> w < 2 ^ 31 \<Longrightarrow> h < 2 ^ 31 \<Longrightarrow>
   canvas_byte (flat_canvas w h v) x y k = v"
proof -
  assume a: "0 \<le> x" "x < int w" "0 \<le> y" "y < int h" "k < 4" "w < 2 ^ 31" "h < 2 ^ 31"
  have wf: "wf_canvas (flat_canvas w h v)" using a by (simp add: flat_canvas_wf)
  from canvas_index_bound [OF wf] a
  have "nat ((y * int w + x) * 4) + k < length (pixels (flat_canvas w h v))"
    by (simp add: flat_canvas_sel)
  then have "pixels (flat_canvas w h v) ! (nat ((y * int w + x) * 4) + k) = v"
    by (simp add: flat_canvas_def)
  with a show ?thesis by (simp add: canvas_byte_def flat_canvas_sel)
qed

text \<open>C3, the code at two concrete brushes on a 16 by 16 black canvas, every draw 0.9 and
  intensity 100 (a noised 0 is 60).
  With the centre at (7.5, 7.5) and radius 5 the specification's region
  \<open>clip (boundingBox ...)\<close> spans the columns \<open>\<lfloor>2.5\<rfloor> = 2\<close> to \<open>\<lceil>12.5\<rceil> = 13\<close> (exclusive),
  and the pixel (12, 7) lies in it and in the circle; the code reads the columns 2 to 11
  only and leaves (12, 7) as it was, while its neighbour (11, 7) is noised.
  With the centre at (2, 7) and radius 5 the specification's region ends at column
  \<open>\<lceil>2 + 5\<rceil> = 7\<close> (exclusive); the code reads the columns 0 to 9 and noises the pixel
  (7, 7), which is in the circle and outside that region.\<close>

theorem applyNoise_region_differs:
  "(\<exists>ctx'. applyNoise (\<lambda>n. 9 / 10) (flat_canvas 16 16 0) (15 / 2) (15 / 2)
             \<lparr>radius = 5, intensity = 100\<rparr> = Inr ctx' \<and>
      \<lfloor>15 / 2 - 5 :: real\<rfloor> \<le> 12 \<and> 12 < \<lceil>15 / 2 + 5 :: real\<rceil> \<and>
      dist_px (15 / 2) (15 / 2) 12 7 \<le> 5 \<and>
      canvas_byte ctx' 12 7 0 = 0 \<and> canvas_byte ctx' 11 7 0 = 60) \<and>
   (\<exists>ctx'. applyNoise (\<lambda>n. 9 / 10) (flat_canvas 16 16 0) 2 7
             \<lparr>radius = 5, intensity = 100\<rparr> = Inr ctx' \<and>
      \<lceil>2 + 5 :: real\<rceil> = 7 \<and> dist_px 2 7 7 7 \<le> 5 \<and> canvas_byte ctx' 7 7 0 = 60)"
proof
  let ?c = "flat_canvas 16 16 0" and ?st = "\<lparr>radius = 5, intensity = 100\<rparr>"
  let ?b = "noise_bounds ?c (15 / 2) (15 / 2) ?st"
  have wf: "wf_canvas ?c" by (simp add: flat_canvas_wf)
  have clean: "origin_clean ?c" by (simp add: flat_canvas_sel)
  have b: "?b = \<lparr>safeStartX = 2, safeStartY = 2, safeEndX = 12, safeEndY = 12\<rparr>"
    by (simp add: noise_bounds_def flat_canvas_sel)
  have pos: "0 < safeWidth ?b" "0 < safeHeight ?b"
    by (simp_all add: b safeWidth_def safeHeight_def)
  from applyNoise_effect [OF wf clean pos, of "\<lambda>n. 9 / 10", unfolded flat_canvas_sel]
  obtain ctx' where res: "applyNoise (\<lambda>n. 9 / 10) ?c (15 / 2) (15 / 2) ?st = Inr ctx'"
    and bytes: "\<And>x' y' k. 0 \<le> x' \<and> x' < int 16 \<and> 0 \<le> y' \<and> y' < int 16 \<and> k < 4 \<Longrightarrow>
              (if in_bounds ?b x' y' \<and> k < 3 \<and> dist_px (15 / 2) (15 / 2) x' y' \<le> radius ?st
               then noised (\<lambda>n. 9 / 10) (intensity ?st * 1.5) (canvas_byte ?c x' y' k) (canvas_byte ctx' x' y' k)
               else canvas_byte ctx' x' y' k = canvas_byte ?c x' y' k)"
    by blast
  have in12: "dist_px (15 / 2) (15 / 2) 12 7 \<le> 5" by (simp add: dist_px_le_iff power2_eq_square)
  have in11: "dist_px (15 / 2) (15 / 2) 11 7 \<le> 5" by (simp add: dist_px_le_iff power2_eq_square)
  have p12: "canvas_byte ctx' 12 7 0 = 0"
    using bytes [of 12 7 0] by (simp add: b in_bounds_def flat_canvas_byte)
  have p11: "canvas_byte ctx' 11 7 0 = 60"
    using bytes [of 11 7 0] in11
    by (simp add: b in_bounds_def flat_canvas_byte noised_const noise_value_def
          to_uint8_clamp_def round_half_even_def)
  have fl: "\<lfloor>15 / 2 - 5 :: real\<rfloor> \<le> 12" "12 < \<lceil>15 / 2 + 5 :: real\<rceil>" by simp_all
  from res fl in12 p12 p11
  show "\<exists>ctx'. applyNoise (\<lambda>n. 9 / 10) ?c (15 / 2) (15 / 2) ?st = Inr ctx' \<and>
      \<lfloor>15 / 2 - 5 :: real\<rfloor> \<le> 12 \<and> 12 < \<lceil>15 / 2 + 5 :: real\<rceil> \<and>
      dist_px (15 / 2) (15 / 2) 12 7 \<le> 5 \<and>
      canvas_byte ctx' 12 7 0 = 0 \<and> canvas_byte ctx' 11 7 0 = 60"
    by blast
next
  let ?c = "flat_canvas 16 16 0" and ?st = "\<lparr>radius = 5, intensity = 100\<rparr>"
  let ?b = "noise_bounds ?c 2 7 ?st"
  have wf: "wf_canvas ?c" by (simp add: flat_canvas_wf)
  have clean: "origin_clean ?c" by (simp add: flat_canvas_sel)
  have b: "?b = \<lparr>safeStartX = 0, safeStartY = 2, safeEndX = 10, safeEndY = 12\<rparr>"
    by (simp add: noise_bounds_def flat_canvas_sel)
  have pos: "0 < safeWidth ?b" "0 < safeHeight ?b"
    by (simp_all add: b safeWidth_def safeHeight_def)
  from applyNoise_effect [OF wf clean pos, of "\<lambda>n. 9 / 10", unfolded flat_canvas_sel]
  obtain ctx' where res: "applyNoise (\<lambda>n. 9 / 10) ?c 2 7 ?st = Inr ctx'"
    and bytes: "\<And>x' y' k. 0 \<le> x' \<and> x' < int 16 \<and> 0 \<le> y' \<and> y' < int 16 \<and> k < 4 \<Longrightarrow>
              (if in_bounds ?b x' y' \<and> k < 3 \<and> dist_px 2 7 x' y' \<le> radius ?st
               then noised (\<lambda>n. 9 / 10) (intensity ?st * 1.5) (canvas_byte ?c x' y' k) (canvas_byte ctx' x' y' k)
               else canvas_byte ctx' x' y' k = canvas_byte ?c x' y' k)"
    by blast
  have in7: "dist_px 2 7 7 7 \<le> 5" by (simp add: dist_px_le_iff)
  have p7: "canvas_byte ctx' 7 7 0 = 60"
    using bytes [of 7 7 0] in7
    by (simp add: b in_bounds_def flat_canvas_byte noised_const noise_value_def
          to_uint8_clamp_def round_half_even_def)
  have "\<lceil>2 + 5 :: real\<rceil> = 7" by simp
  with res in7 p7
  show "\<exists>ctx'. applyNoise (\<lambda>n. 9 / 10) ?c 2 7 ?st = Inr ctx' \<and>
      \<lceil>2 + 5 :: real\<rceil> = 7 \<and> dist_px 2 7 7 7 \<le> 5 \<and> canvas_byte ctx' 7 7 0 = 60"
    by blast
qed

text \<open>C9, the code at a brush wholly to the left of a 20 by 20 canvas (centre (-10, 10),
  radius 5, so the bounding box ends at column \<open>\<lceil>-10 + 5\<rceil> = -5\<close>): \<open>applyNoise\<close> does not
  return early; it reads the 10 by 10 rectangle at (0, 5) and writes it back.\<close>

theorem applyNoise_reads_outside_brush:
  "\<exists>ctx'. applyNoise (\<lambda>n. 9 / 10) (flat_canvas 20 20 0) (- 10) 10 \<lparr>radius = 5, intensity = 15\<rparr> = Inr ctx' \<and>
     \<lceil>- 10 + 5 :: real\<rceil> = - 5 \<and>
     transfers ctx' = [ReadRegion 0 5 10 10, WriteRegion 0 5 10 10]"
proof -
  let ?c = "flat_canvas 20 20 0" and ?st = "\<lparr>radius = 5, intensity = 15\<rparr>"
  let ?b = "noise_bounds ?c (- 10) 10 ?st"
  have wf: "wf_canvas ?c" by (simp add: flat_canvas_wf)
  have clean: "origin_clean ?c" by (simp add: flat_canvas_sel)
  have b: "?b = \<lparr>safeStartX = 0, safeStartY = 5, safeEndX = 10, safeEndY = 15\<rparr>"
    by (simp add: noise_bounds_def flat_canvas_sel)
  have pos: "0 < safeWidth ?b" "0 < safeHeight ?b"
    by (simp_all add: b safeWidth_def safeHeight_def)
  from applyNoise_effect [OF wf clean pos, of "\<lambda>n. 9 / 10", unfolded flat_canvas_sel append_Nil]
  obtain ctx' where res: "applyNoise (\<lambda>n. 9 / 10) ?c (- 10) 10 ?st = Inr ctx'"
    and tr: "transfers ctx' =
             [ReadRegion (safeStartX ?b) (safeStartY ?b) (nat (safeWidth ?b)) (nat (safeHeight ?b)),
              WriteRegion (safeStartX ?b) (safeStartY ?b) (nat (safeWidth ?b)) (nat (safeHeight ?b))]"
    by blast
  have "transfers ctx' = [ReadRegion 0 5 10 10, WriteRegion 0 5 10 10]"
    unfolding tr by (simp add: b safeWidth_def safeHeight_def)
  moreover have "\<lceil>- 10 + 5 :: real\<rceil> = - 5" by simp
  ultimately show ?thesis using res by blast
qed

text \<open>The part of C7 that the two pixel-level effects decide (\<open>applyBlur\<close> has no model):
  both leave the alpha byte of every pixel as it was.\<close>

lemma alpha_unchanged_pixelate_noise:
  assumes "wf_canvas ctx"
  shows "(\<exists>ctx'. applyPixelate ctx centerX centerY settings = Inr ctx' \<and>
            (\<forall>x y. 0 \<le> x \<and> x < int (canvas_width ctx) \<and> 0 \<le> y \<and> y < int (canvas_height ctx) \<longrightarrow>
               canvas_byte ctx' x y 3 = canvas_byte ctx x y 3)) \<and>
         (\<exists>ctx'. applyNoise rnd ctx centerX centerY settings = Inr ctx' \<and>
            (\<forall>x y. 0 \<le> x \<and> x < int (canvas_width ctx) \<and> 0 \<le> y \<and> y < int (canvas_height ctx) \<longrightarrow>
               canvas_byte ctx' x y 3 = canvas_byte ctx x y 3))"
proof
  from applyPixelate_total [OF assms, of centerX centerY settings]
  obtain ctx' where res: "applyPixelate ctx centerX centerY settings = Inr ctx'"
    and frame: "\<And>x y k. 0 \<le> x \<and> x < int (canvas_width ctx) \<and> 0 \<le> y \<and> y < int (canvas_height ctx) \<and> k < 4 \<Longrightarrow>
              canvas_byte ctx' x y k = canvas_byte ctx x y k \<or>
              k < 3 \<and> in_bounds (pixelate_bounds ctx centerX centerY settings) x y \<and>
              dist_px centerX centerY x y \<le> radius settings"
    by blast
  have "canvas_byte ctx' x y 3 = canvas_byte ctx x y 3"
    if "0 \<le> x \<and> x < int (canvas_width ctx) \<and> 0 \<le> y \<and> y < int (canvas_height ctx)" for x y
    using frame [of x y 3] that by simp
  with res show "\<exists>ctx'. applyPixelate ctx centerX centerY settings = Inr ctx' \<and>
            (\<forall>x y. 0 \<le> x \<and> x < int (canvas_width ctx) \<and> 0 \<le> y \<and> y < int (canvas_height ctx) \<longrightarrow>
               canvas_byte ctx' x y 3 = canvas_byte ctx x y 3)"
    by blast
next
  from applyNoise_total [OF assms, of rnd centerX centerY settings]
  obtain ctx' where res: "applyNoise rnd ctx centerX centerY settings = Inr ctx'"
    and frame: "\<And>x y k. 0 \<le> x \<and> x < int (canvas_width ctx) \<and> 0 \<le> y \<and> y < int (canvas_height ctx) \<and> k < 4 \<Longrightarrow>
              canvas_byte ctx' x y k = canvas_byte ctx x y k \<or>
              k < 3 \<and> in_bounds (noise_bounds ctx centerX centerY settings) x y \<and>
              dist_px centerX centerY x y \<le> radius settings \<and>
              noised rnd (intensity settings * 1.5) (canvas_byte ctx x y k) (canvas_byte ctx' x y k)"
    by blast
  have "canvas_byte ctx' x y 3 = canvas_byte ctx x y 3"
    if "0 \<le> x \<and> x < int (canvas_width ctx) \<and> 0 \<le> y \<and> y < int (canvas_height ctx)" for x y
    using frame [of x y 3] that by simp
  with res show "\<exists>ctx'. applyNoise rnd ctx centerX centerY settings = Inr ctx' \<and>
            (\<forall>x y. 0 \<le> x \<and> x < int (canvas_width ctx) \<and> 0 \<le> y \<and> y < int (canvas_height ctx) \<longrightarrow>
               canvas_byte ctx' x y 3 = canvas_byte ctx x y 3)"
    by blast
qed

lemma pixelate_cell_is_grid_cell:
  assumes "in_bounds (pixelate_bounds ctx centerX centerY settings) x y"
  shows "cell_xs (pixelate_bounds ctx centerX centerY settings) (blockSize settings) x =
           grid_cell (blockSize settings) (int (canvas_width ctx)) x"
    and "cell_ys (pixelate_bounds ctx centerX centerY settings) (blockSize settings) y =
           grid_cell (blockSize settings) (int (canvas_height ctx)) y"
proof -
  define b where "b = pixelate_bounds ctx centerX centerY settings"
  define bs where "bs = blockSize settings"
  have pos: "0 < bs" using blockSize_ge [of settings] by (simp add: bs_def)
  note al = pixelate_bounds_aligned [of settings ctx centerX centerY, folded b_def bs_def]
  from assms have xy: "safeStartX b \<le> x" "x < safeEndX b" "safeStartY b \<le> y" "y < safeEndY b"
    by (simp_all add: in_bounds_def b_def)
  from al(3) obtain ex where ex: "bs dvd ex" "safeEndX b = min (int (canvas_width ctx)) ex" by blast
  from al(4) obtain ey where ey: "bs dvd ey" "safeEndY b = min (int (canvas_height ctx)) ey" by blast
  from xy ex ey have lt: "x < ex" "y < ey" by simp_all
  have "max (safeStartX b) (x div bs * bs) = x div bs * bs"
    using multiple_below [OF pos al(1) xy(1)] by simp
  moreover have "min (safeEndX b) (x div bs * bs + bs) = min (int (canvas_width ctx)) (x div bs * bs + bs)"
    using multiple_above [OF pos ex(1) lt(1)] ex(2) by simp
  ultimately have "cell_xs b bs x = grid_cell bs (int (canvas_width ctx)) x"
    by (simp only: cell_xs_def grid_cell_def)
  then show "cell_xs (pixelate_bounds ctx centerX centerY settings) (blockSize settings) x =
           grid_cell (blockSize settings) (int (canvas_width ctx)) x"
    by (simp only: b_def bs_def)
  have "max (safeStartY b) (y div bs * bs) = y div bs * bs"
    using multiple_below [OF pos al(2) xy(3)] by simp
  moreover have "min (safeEndY b) (y div bs * bs + bs) = min (int (canvas_height ctx)) (y div bs * bs + bs)"
    using multiple_above [OF pos ey(1) lt(2)] ey(2) by simp
  ultimately have "cell_ys b bs y = grid_cell bs (int (canvas_height ctx)) y"
    by (simp only: cell_ys_def grid_cell_def)
  then show "cell_ys (pixelate_bounds ctx centerX centerY settings) (blockSize settings) y =
           grid_cell (blockSize settings) (int (canvas_height ctx)) y"
    by (simp only: b_def bs_def)
qed

lemma applyPixelate_grid_cell:
  assumes wf: "wf_canvas ctx" and clean: "origin_clean ctx"
    and xy: "in_bounds (pixelate_bounds ctx centerX centerY settings) x y"
  shows "\<exists>ctx'. applyPixelate ctx centerX centerY settings = Inr ctx' \<and>
           (\<forall>k. k < 3 \<longrightarrow>
              (if sqrt ((of_int x - centerX)\<^sup>2 + (of_int y - centerY)\<^sup>2) \<le> radius settings
               then canvas_byte ctx' x y k =
                      word_of_int
                        (cell_mean (\<lambda>x y. canvas_byte ctx x y k)
                           (grid_cell (blockSize settings) (int (canvas_width ctx)) x)
                           (grid_cell (blockSize settings) (int (canvas_height ctx)) y))
               else canvas_byte ctx' x y k = canvas_byte ctx x y k))"
proof -
  define b where "b = pixelate_bounds ctx centerX centerY settings"
  note clip = pixelate_bounds_clip [of ctx centerX centerY settings, folded b_def]
  from xy have inb: "in_bounds b x y" by (simp add: b_def)
  then have pos: "0 < safeWidth b" "0 < safeHeight b"
    by (simp_all add: in_bounds_def safeWidth_def safeHeight_def)
  from inb clip have inside: "0 \<le> x \<and> x < int (canvas_width ctx) \<and> 0 \<le> y \<and> y < int (canvas_height ctx)"
    by (simp add: in_bounds_def)
  note cells = pixelate_cell_is_grid_cell [OF xy, folded b_def]
  from applyPixelate_effect [OF wf clean, of centerX centerY settings, folded b_def, OF pos]
  obtain ctx' where res: "applyPixelate ctx centerX centerY settings = Inr ctx'"
    and bytes: "\<And>x y k. 0 \<le> x \<and> x < int (canvas_width ctx) \<and> 0 \<le> y \<and> y < int (canvas_height ctx) \<and> k < 4 \<Longrightarrow>
              canvas_byte ctx' x y k =
                (if in_bounds b x y then mosaic_byte b centerX centerY settings (canvas_byte ctx) x y k
                 else canvas_byte ctx x y k)"
    by blast
  have "if sqrt ((of_int x - centerX)\<^sup>2 + (of_int y - centerY)\<^sup>2) \<le> radius settings
        then canvas_byte ctx' x y k =
               word_of_int
                 (cell_mean (\<lambda>x y. canvas_byte ctx x y k)
                    (grid_cell (blockSize settings) (int (canvas_width ctx)) x)
                    (grid_cell (blockSize settings) (int (canvas_height ctx)) y))
        else canvas_byte ctx' x y k = canvas_byte ctx x y k"
    if k: "k < 3" for k
  proof -
    from inside k have "0 \<le> x \<and> x < int (canvas_width ctx) \<and> 0 \<le> y \<and> y < int (canvas_height ctx) \<and> k < 4"
      by simp
    from bytes [OF this] inb k show ?thesis
      by (simp add: mosaic_byte_def dist_px_def cells)
  qed
  with res show ?thesis by blast
qed

text \<open>C2. The cells that \<open>applyPixelate\<close> averages and paints are those of the one global
  grid, wherever the brush is. For two dabs with the same \<open>blockSize\<close> on readable canvases
  of the same size, with any centres and radii, and a pixel \<open>(x, y)\<close> that lies in the
  clipped areas of both: the visible cell of the pixel is the same for both dabs, namely the
  grid cell \<open>[g, g + blockSize)\<close>, \<open>g\<close> the multiple of \<open>blockSize\<close> below the coordinate, cut
  at the canvas edge only; and each dab returns a canvas in which R, G and B of the pixel, if
  it passes that dab's in-circle test, are the floor means of its input over exactly that
  cell (otherwise they are unchanged).\<close>

theorem grid_invariance:
  assumes "wf_canvas ctx1" and "origin_clean ctx1" and "wf_canvas ctx2" and "origin_clean ctx2"
    and "canvas_width ctx2 = canvas_width ctx1" and "canvas_height ctx2 = canvas_height ctx1"
    and "blockSize settings2 = blockSize settings1"
    and "in_bounds (pixelate_bounds ctx1 centerX1 centerY1 settings1) x y"
    and "in_bounds (pixelate_bounds ctx2 centerX2 centerY2 settings2) x y"
  shows "cell_xs (pixelate_bounds ctx1 centerX1 centerY1 settings1) (blockSize settings1) x =
           grid_cell (blockSize settings1) (int (canvas_width ctx1)) x \<and>
         cell_xs (pixelate_bounds ctx2 centerX2 centerY2 settings2) (blockSize settings2) x =
           grid_cell (blockSize settings1) (int (canvas_width ctx1)) x \<and>
         cell_ys (pixelate_bounds ctx1 centerX1 centerY1 settings1) (blockSize settings1) y =
           grid_cell (blockSize settings1) (int (canvas_height ctx1)) y \<and>
         cell_ys (pixelate_bounds ctx2 centerX2 centerY2 settings2) (blockSize settings2) y =
           grid_cell (blockSize settings1) (int (canvas_height ctx1)) y \<and>
         (\<exists>c1 c2.
            applyPixelate ctx1 centerX1 centerY1 settings1 = Inr c1 \<and>
            applyPixelate ctx2 centerX2 centerY2 settings2 = Inr c2 \<and>
            (\<forall>k. k < 3 \<longrightarrow>
               (if sqrt ((of_int x - centerX1)\<^sup>2 + (of_int y - centerY1)\<^sup>2) \<le> radius settings1
                then canvas_byte c1 x y k =
                       word_of_int
                         (cell_mean (\<lambda>x y. canvas_byte ctx1 x y k)
                            (grid_cell (blockSize settings1) (int (canvas_width ctx1)) x)
                            (grid_cell (blockSize settings1) (int (canvas_height ctx1)) y))
                else canvas_byte c1 x y k = canvas_byte ctx1 x y k) \<and>
               (if sqrt ((of_int x - centerX2)\<^sup>2 + (of_int y - centerY2)\<^sup>2) \<le> radius settings2
                then canvas_byte c2 x y k =
                       word_of_int
                         (cell_mean (\<lambda>x y. canvas_byte ctx2 x y k)
                            (grid_cell (blockSize settings1) (int (canvas_width ctx1)) x)
                            (grid_cell (blockSize settings1) (int (canvas_height ctx1)) y))
                else canvas_byte c2 x y k = canvas_byte ctx2 x y k)))"
proof -
  note c1 = pixelate_cell_is_grid_cell [OF assms(8)]
  note c2 = pixelate_cell_is_grid_cell [OF assms(9), unfolded assms(5,6,7)]
  from applyPixelate_grid_cell [OF assms(1,2,8)]
  obtain r1 where r1: "applyPixelate ctx1 centerX1 centerY1 settings1 = Inr r1"
    and e1: "\<forall>k. k < 3 \<longrightarrow>
              (if sqrt ((of_int x - centerX1)\<^sup>2 + (of_int y - centerY1)\<^sup>2) \<le> radius settings1
               then canvas_byte r1 x y k =
                      word_of_int
                        (cell_mean (\<lambda>x y. canvas_byte ctx1 x y k)
                           (grid_cell (blockSize settings1) (int (canvas_width ctx1)) x)
                           (grid_cell (blockSize settings1) (int (canvas_height ctx1)) y))
               else canvas_byte r1 x y k = canvas_byte ctx1 x y k)"
    by blast
  from applyPixelate_grid_cell [OF assms(3,4,9), unfolded assms(5,6,7)]
  obtain r2 where r2: "applyPixelate ctx2 centerX2 centerY2 settings2 = Inr r2"
    and e2: "\<forall>k. k < 3 \<longrightarrow>
              (if sqrt ((of_int x - centerX2)\<^sup>2 + (of_int y - centerY2)\<^sup>2) \<le> radius settings2
               then canvas_byte r2 x y k =
                      word_of_int
                        (cell_mean (\<lambda>x y. canvas_byte ctx2 x y k)
                           (grid_cell (blockSize settings1) (int (canvas_width ctx1)) x)
                           (grid_cell (blockSize settings1) (int (canvas_height ctx1)) y))
               else canvas_byte r2 x y k = canvas_byte ctx2 x y k)"
    by blast
  from e1 e2 have both: "\<forall>k. k < 3 \<longrightarrow>
               (if sqrt ((of_int x - centerX1)\<^sup>2 + (of_int y - centerY1)\<^sup>2) \<le> radius settings1
                then canvas_byte r1 x y k =
                       word_of_int
                         (cell_mean (\<lambda>x y. canvas_byte ctx1 x y k)
                            (grid_cell (blockSize settings1) (int (canvas_width ctx1)) x)
                            (grid_cell (blockSize settings1) (int (canvas_height ctx1)) y))
                else canvas_byte r1 x y k = canvas_byte ctx1 x y k) \<and>
               (if sqrt ((of_int x - centerX2)\<^sup>2 + (of_int y - centerY2)\<^sup>2) \<le> radius settings2
                then canvas_byte r2 x y k =
                       word_of_int
                         (cell_mean (\<lambda>x y. canvas_byte ctx2 x y k)
                            (grid_cell (blockSize settings1) (int (canvas_width ctx1)) x)
                            (grid_cell (blockSize settings1) (int (canvas_height ctx1)) y))
                else canvas_byte r2 x y k = canvas_byte ctx2 x y k)"
    by blast
  from c1 c2 r1 r2 both show ?thesis unfolding assms(7) by blast
qed


theorem grid_invariance_witness:
  "wf_canvas quadrant_canvas \<and> origin_clean quadrant_canvas \<and>
   blockSize \<lparr>radius = 2, intensity = 9 / 2\<rparr> = blockSize \<lparr>radius = 1, intensity = 4\<rparr> \<and>
   in_bounds (pixelate_bounds quadrant_canvas 1 1 \<lparr>radius = 1, intensity = 4\<rparr>) 1 1 \<and>
   in_bounds (pixelate_bounds quadrant_canvas 2 2 \<lparr>radius = 2, intensity = 9 / 2\<rparr>) 1 1 \<and>
   grid_cell 4 4 1 = [0..3] \<and>
   cell_xs (pixelate_bounds quadrant_canvas 1 1 \<lparr>radius = 1, intensity = 4\<rparr>) 4 1 = [0..3] \<and>
   cell_xs (pixelate_bounds quadrant_canvas 2 2 \<lparr>radius = 2, intensity = 9 / 2\<rparr>) 4 1 = [0..3] \<and>
   canvas_byte quadrant_canvas 1 1 0 = 10 \<and>
   (\<exists>c1 c2.
      applyPixelate quadrant_canvas 1 1 \<lparr>radius = 1, intensity = 4\<rparr> = Inr c1 \<and>
      applyPixelate quadrant_canvas 2 2 \<lparr>radius = 2, intensity = 9 / 2\<rparr> = Inr c2 \<and>
      canvas_byte c1 1 1 0 = 70 \<and> canvas_byte c2 1 1 0 = 70)"
proof -
  let ?s1 = "\<lparr>radius = 1, intensity = 4\<rparr>" and ?s2 = "\<lparr>radius = 2, intensity = 9 / 2\<rparr>"
  have bs: "blockSize ?s1 = 4" "blockSize ?s2 = 4" by (simp_all add: blockSize_def)
  have b1: "pixelate_bounds quadrant_canvas 1 1 ?s1 =
      \<lparr>safeStartX = 0, safeStartY = 0, safeEndX = 4, safeEndY = 4\<rparr>"
    by (simp add: pixelate_bounds_def floor_div_eq bs quadrant_sel)
  have b2: "pixelate_bounds quadrant_canvas 2 2 ?s2 =
      \<lparr>safeStartX = 0, safeStartY = 0, safeEndX = 4, safeEndY = 4\<rparr>"
    by (simp add: pixelate_bounds_def floor_div_eq bs quadrant_sel)
  have i1: "in_bounds (pixelate_bounds quadrant_canvas 1 1 ?s1) 1 1"
    by (simp add: b1 in_bounds_def)
  have i2: "in_bounds (pixelate_bounds quadrant_canvas 2 2 ?s2) 1 1"
    by (simp add: b2 in_bounds_def)
  have eqbs: "blockSize ?s2 = blockSize ?s1" by (simp add: bs)
  have gc: "grid_cell 4 4 1 = [0..3]" by (simp add: grid_cell_def)
  have t1: "sqrt ((of_int 1 - 1)\<^sup>2 + (of_int 1 - 1)\<^sup>2) \<le> radius ?s1" by simp
  have t2: "sqrt ((of_int 1 - 2)\<^sup>2 + (of_int 1 - 2)\<^sup>2) \<le> radius ?s2"
    using real_sqrt_le_iff [of 2 4] by simp
  note inst = grid_invariance [OF quadrant_wf quadrant_sel(3) quadrant_wf quadrant_sel(3)
      refl refl eqbs i1 i2, unfolded bs quadrant_sel]
  from inst have cx: "cell_xs (pixelate_bounds quadrant_canvas 1 1 ?s1) 4 1 = grid_cell 4 (int 4) 1"
    "cell_xs (pixelate_bounds quadrant_canvas 2 2 ?s2) 4 1 = grid_cell 4 (int 4) 1"
    by blast+
  from inst obtain c1 c2 where r: "applyPixelate quadrant_canvas 1 1 ?s1 = Inr c1"
      "applyPixelate quadrant_canvas 2 2 ?s2 = Inr c2"
    and e: "\<And>k. k < 3 \<Longrightarrow>
               (if sqrt ((of_int 1 - 1)\<^sup>2 + (of_int 1 - 1)\<^sup>2) \<le> radius ?s1
                then canvas_byte c1 1 1 k =
                       word_of_int
                         (cell_mean (\<lambda>x y. canvas_byte quadrant_canvas x y k)
                            (grid_cell 4 (int 4) 1) (grid_cell 4 (int 4) 1))
                else canvas_byte c1 1 1 k = canvas_byte quadrant_canvas 1 1 k) \<and>
               (if sqrt ((of_int 1 - 2)\<^sup>2 + (of_int 1 - 2)\<^sup>2) \<le> radius ?s2
                then canvas_byte c2 1 1 k =
                       word_of_int
                         (cell_mean (\<lambda>x y. canvas_byte quadrant_canvas x y k)
                            (grid_cell 4 (int 4) 1) (grid_cell 4 (int 4) 1))
                else canvas_byte c2 1 1 k = canvas_byte quadrant_canvas 1 1 k)"
    by blast
  have gc': "grid_cell 4 (int 4) 1 = [0..3]" using gc by simp
  from e [of 0] have "canvas_byte c1 1 1 0 = 70" "canvas_byte c2 1 1 0 = 70"
    unfolding if_P [OF t1] if_P [OF t2] gc' quadrant_means by simp_all
  with quadrant_wf quadrant_sel(3) eqbs i1 i2 gc cx [unfolded gc'] quadrant_bytes(2) r
  show ?thesis by blast
qed

text \<open>C1 as first stated (the mean is written exactly for the pixels whose centre lies
  within \<open>radius\<close>) fails on the quadrant canvas with the brush at (2, 2), radius 1 and
  \<open>blockSize\<close> 4: the centre (3.5, 2.5) of the pixel (3, 2) is outside the disc, yet its R
  went from 130 to the mean 70; the centre (1.5, 1.5) of the pixel (1, 1) is inside the
  disc, yet its R is still 10, not the mean 70 of its cell.\<close>

theorem applyPixelate_pixel_centre_counterexample:
  "\<not> isl (applyPixelate quadrant_canvas 2 2 \<lparr>radius = 1, intensity = 4\<rparr>) \<and>
   \<not> sqrt ((3 + 1 / 2 - 2)\<^sup>2 + (2 + 1 / 2 - 2)\<^sup>2) \<le> (1 :: real) \<and>
   canvas_byte quadrant_canvas 3 2 0 = 130 \<and>
   canvas_byte (projr (applyPixelate quadrant_canvas 2 2 \<lparr>radius = 1, intensity = 4\<rparr>)) 3 2 0 = 70 \<and>
   sqrt ((1 + 1 / 2 - 2)\<^sup>2 + (1 + 1 / 2 - 2)\<^sup>2) \<le> (1 :: real) \<and>
   cell_mean (\<lambda>x y. canvas_byte quadrant_canvas x y 0) [0..3] [0..3] = 70 \<and>
   canvas_byte (projr (applyPixelate quadrant_canvas 2 2 \<lparr>radius = 1, intensity = 4\<rparr>)) 1 1 0 = 10"
proof -
  let ?st = "\<lparr>radius = 1, intensity = 4\<rparr>"
  let ?b = "pixelate_bounds quadrant_canvas 2 2 ?st"
  have b: "?b = \<lparr>safeStartX = 0, safeStartY = 0, safeEndX = 4, safeEndY = 4\<rparr>"
    by (simp add: pixelate_bounds_def floor_div_eq blockSize_def quadrant_sel)
  have pos: "0 < safeWidth ?b" "0 < safeHeight ?b"
    by (simp_all add: b safeWidth_def safeHeight_def)
  from applyPixelate_effect [OF quadrant_wf quadrant_sel(3) pos, unfolded quadrant_sel]
  obtain ctx' where res: "applyPixelate quadrant_canvas 2 2 ?st = Inr ctx'"
    and bytes: "\<And>x y k. 0 \<le> x \<and> x < int 4 \<and> 0 \<le> y \<and> y < int 4 \<and> k < 4 \<Longrightarrow>
              canvas_byte ctx' x y k =
                (if in_bounds ?b x y then mosaic_byte ?b 2 2 ?st (canvas_byte quadrant_canvas) x y k
                 else canvas_byte quadrant_canvas x y k)"
    by blast
  have cells: "cell_xs ?b (blockSize ?st) 3 = [0..3]" "cell_ys ?b (blockSize ?st) 2 = [0..3]"
    by (simp_all add: cell_xs_def cell_ys_def b blockSize_def)
  have d32: "dist_px 2 2 3 2 \<le> radius ?st" by (simp add: dist_px_le_iff)
  have d11: "\<not> dist_px 2 2 1 1 \<le> radius ?st" by (simp add: dist_px_le_iff)
  have p32: "canvas_byte ctx' 3 2 0 = 70"
    using bytes [of 3 2 0] d32
    by (simp add: b in_bounds_def mosaic_byte_def cells [unfolded b] quadrant_means)
  have p11: "canvas_byte ctx' 1 1 0 = 10"
    using bytes [of 1 1 0] d11
    by (simp add: b in_bounds_def mosaic_byte_def quadrant_bytes)
  have ce1: "\<not> sqrt ((3 + 1 / 2 - 2)\<^sup>2 + (2 + 1 / 2 - 2)\<^sup>2) \<le> (1 :: real)"
    using real_sqrt_le_iff [of "(3 + 1 / 2 - 2)\<^sup>2 + (2 + 1 / 2 - 2)\<^sup>2" 1]
    by (simp add: power2_eq_square)
  have ce2: "sqrt ((1 + 1 / 2 - 2)\<^sup>2 + (1 + 1 / 2 - 2)\<^sup>2) \<le> (1 :: real)"
    using real_sqrt_le_iff [of "(1 + 1 / 2 - 2)\<^sup>2 + (1 + 1 / 2 - 2)\<^sup>2" 1]
    by (simp add: power2_eq_square)
  have sel: "\<not> isl (applyPixelate quadrant_canvas 2 2 ?st)"
    "projr (applyPixelate quadrant_canvas 2 2 ?st) = ctx'"
    by (simp_all add: res)
  have "canvas_byte (projr (applyPixelate quadrant_canvas 2 2 ?st)) 3 2 0 = 70"
    "canvas_byte (projr (applyPixelate quadrant_canvas 2 2 ?st)) 1 1 0 = 10"
    using p32 p11 by (simp_all only: sel(2))
  with sel(1) ce1 quadrant_bytes(1) ce2 quadrant_means(1)
  show ?thesis by blast
qed

end
